theory Spec2Isabelle
  imports Complex_Main
begin

section \<open>Machine integers\<close>

text \<open>
  The program computes with the C++ type \<open>int\<close> (32 bits, two's complement).
  Integers are modelled as \<open>int\<close>; where a value can leave the 32-bit range
  (the tallies of the enumerator, the size and the linear index of the grid) the
  wrap-around is written out with \<open>wrap32\<close>.  Loop counters run over \<open>1..S\<close>,
  \<open>1..A\<close>, \<open>1..D\<close> and are modelled by the list of values they take.
\<close>

definition INT_MAX :: int where
  "INT_MAX = 2147483647"

definition wrap32 :: "int \<Rightarrow> int" where
  "wrap32 x = (x + 2147483648) mod 4294967296 - 2147483648"

section \<open>Dice allocation\<close>

definition attacker_dice :: "int \<Rightarrow> int" where
  "attacker_dice a = (let q = (if a - 1 < 3 then a - 1 else 3) in if q < 0 then 0 else q)"

definition defender_dice :: "int \<Rightarrow> int" where
  "defender_dice d = (let q = (if d < 2 then d else 2) in if q < 0 then 0 else q)"

text \<open>\<open>sort_three\<close> writes the three values in ascending order to \<open>abc[0..2]\<close>.\<close>

definition sort_three :: "int \<Rightarrow> int \<Rightarrow> int \<Rightarrow> int list" where
  "sort_three a b c =
     (let (a, b) = (if a > b then (b, a) else (a, b));
          (b, c) = (if b > c then (c, b) else (b, c));
          (a, b) = (if a > b then (b, a) else (a, b))
      in [a, b, c])"

section \<open>Monte Carlo simulator\<close>

text \<open>
  The random number generator is the sequence \<open>gen\<close> of the values that successive
  calls of \<open>distrib(gen)\<close> return; \<open>pos\<close> counts the values drawn so far.  Nothing
  is assumed about the values.

  \<open>battle_round\<close> is the part of the loop body of \<open>simulate_battle\<close> after the dice
  are thrown: both sides sort their dice in descending order, \<open>num_compares\<close> pairs
  are compared, and the loser of each comparison loses one unit.
\<close>

definition sort_desc :: "int list \<Rightarrow> int list" where
  "sort_desc xs = rev (sort xs)"

definition compare_step :: "int list \<Rightarrow> int list \<Rightarrow> nat \<Rightarrow> int \<times> int \<Rightarrow> int \<times> int" where
  "compare_step a_dice d_dice i ad =
     (case ad of (a, d) \<Rightarrow> if a_dice ! i > d_dice ! i then (a, d - 1) else (a - 1, d))"

definition battle_round :: "int \<Rightarrow> int \<Rightarrow> int list \<Rightarrow> int list \<Rightarrow> int \<times> int \<Rightarrow> int \<times> int" where
  "battle_round na nd a_rolls d_rolls ad =
     (let a_dice = sort_desc a_rolls;
          d_dice = sort_desc d_rolls;
          num_compares = (if na > nd then nd else na)
      in fold (compare_step a_dice d_dice) [0..<nat num_compares] ad)"

function battle_loop :: "(nat \<Rightarrow> int) \<Rightarrow> nat \<Rightarrow> int \<Rightarrow> int \<Rightarrow> int \<times> int" where
  "battle_loop gen pos a d =
     (if a > 1 \<and> d > 0 then
        (let na = attacker_dice a;
             a_rolls = map gen [pos..<pos + nat na];
             nd = defender_dice d;
             d_rolls = map gen [pos + nat na..<pos + nat na + nat nd]
         in case battle_round na nd a_rolls d_rolls (a, d) of
              (a', d') \<Rightarrow> battle_loop gen (pos + nat na + nat nd) a' d')
      else (a, d))"
  by pat_completeness auto
termination
proof (relation "measure (\<lambda>(gen, pos, a, d). nat (a + d))")
  show "wf (measure (\<lambda>(gen, pos, a, d). nat (a + d)))"
    by simp
next
  fix gen :: "nat \<Rightarrow> int" and pos :: nat and a d na nd :: int
    and a_rolls d_rolls :: "int list" and a' d' :: int
  assume run: "1 < a \<and> 0 < d" and na: "na = attacker_dice a"
    and "a_rolls = map gen [pos..<pos + nat na]" and nd: "nd = defender_dice d"
    and "d_rolls = map gen [pos + nat na..<pos + nat na + nat nd]"
    and r: "(a', d') = battle_round na nd a_rolls d_rolls (a, d)"
  have steps: "fst (fold (compare_step xs ys) is (x, y)) + snd (fold (compare_step xs ys) is (x, y))
      = x + y - int (length is)" for xs ys "is" x y
    by (induction "is" arbitrary: x y) (auto simp: compare_step_def)
  have nc: "1 \<le> (if na > nd then nd else na)"
    using run na nd by (auto simp: attacker_dice_def defender_dice_def Let_def)
  have "fold (compare_step (sort_desc a_rolls) (sort_desc d_rolls))
      [0..<nat (if na > nd then nd else na)] (a, d) = (a', d')"
    using r by (simp add: battle_round_def Let_def)
  with steps [of "sort_desc a_rolls" "sort_desc d_rolls" "[0..<nat (if na > nd then nd else na)]" a d]
  have "a' + d' = a + d - (if na > nd then nd else na)"
    using nc by simp
  with nc have "a' + d' < a + d"
    by simp
  moreover have "0 < a + d" using run by simp
  ultimately show "((gen, pos + nat na + nat nd, a', d'), (gen, pos, a, d))
      \<in> measure (\<lambda>(gen, pos, a, d). nat (a + d))"
    by simp
qed

declare battle_loop.simps [simp del]

text \<open>\<open>simulate_battle\<close> returns 1 if the attacker wins, otherwise 0.\<close>

definition simulate_battle :: "int \<Rightarrow> int \<Rightarrow> int \<Rightarrow> (nat \<Rightarrow> int) \<Rightarrow> int" where
  "simulate_battle a d uniform_dice_sides gen =
     (case battle_loop gen 0 a d of (a', d') \<Rightarrow> if d' = 0 then 1 else 0)"

section \<open>Outcome enumerator\<close>

text \<open>
  The two-element vectors of the program (dice tuples, outcome deltas) are pairs.
  The \<open>std::map\<close> from outcome delta to its position in \<open>order\<close> is a finite map;
  \<open>operator[]\<close> on a missing key yields the default value 0.
\<close>

type_synonym tuple = "int \<times> int"
type_synonym tally = "int list \<times> int"

definition index_map :: "tuple list \<Rightarrow> (tuple \<rightharpoonup> nat)" where
  "index_map order = fold (\<lambda>i m. m(order ! i \<mapsto> i)) [0..<length order] Map.empty"

definition lookup0 :: "(tuple \<rightharpoonup> nat) \<Rightarrow> tuple \<Rightarrow> nat" where
  "lookup0 M key = (case M key of None \<Rightarrow> 0 | Some i \<Rightarrow> i)"

text \<open>\<open>counts[M[key]] += 1\<close> and \<open>O += 1\<close> on 32-bit integers.\<close>

definition bump :: "(tuple \<rightharpoonup> nat) \<Rightarrow> tuple \<Rightarrow> tally \<Rightarrow> tally" where
  "bump M key st =
     (case st of (counts, O') \<Rightarrow>
        (counts[lookup0 M key := wrap32 (counts ! lookup0 M key + 1)], O'))"

definition tick :: "tally \<Rightarrow> tally" where
  "tick st = (case st of (counts, O') \<Rightarrow> (counts, wrap32 (O' + 1)))"

definition when_do :: "bool \<Rightarrow> (tally \<Rightarrow> tally) \<Rightarrow> tally \<Rightarrow> tally" where
  "when_do c f st = (if c then f st else st)"

text \<open>The innermost loop bodies: one comparison (attacker's best against defender's best).\<close>

definition body_single :: "(tuple \<rightharpoonup> nat) \<Rightarrow> int \<Rightarrow> int \<Rightarrow> tally \<Rightarrow> tally" where
  "body_single M amax p st =
     tick (when_do (amax \<le> p) (bump M (-1, 0))
          (when_do (amax > p) (bump M (0, -1)) st))"

text \<open>The body of the \<open>(1,2)\<close> branch, written with \<open>pqmax >= i\<close> first.\<close>

definition body_12 :: "(tuple \<rightharpoonup> nat) \<Rightarrow> int \<Rightarrow> int \<Rightarrow> tally \<Rightarrow> tally" where
  "body_12 M i pqmax st =
     tick (when_do (pqmax < i) (bump M (0, -1))
          (when_do (pqmax \<ge> i) (bump M (-1, 0)) st))"

text \<open>Two comparisons: \<open>hi\<close> against \<open>pqmax\<close> and \<open>lo\<close> against \<open>pqmin\<close>.\<close>

definition body_double :: "(tuple \<rightharpoonup> nat) \<Rightarrow> int \<Rightarrow> int \<Rightarrow> int \<Rightarrow> int \<Rightarrow> tally \<Rightarrow> tally" where
  "body_double M hi lo pqmax pqmin st =
     tick (when_do (hi \<le> pqmax \<and> lo \<le> pqmin) (bump M (-2, 0))
          (when_do (hi > pqmax \<and> lo \<le> pqmin) (bump M (-1, -1))
          (when_do (hi \<le> pqmax \<and> lo > pqmin) (bump M (-1, -1))
          (when_do (hi > pqmax \<and> lo > pqmin) (bump M (0, -2)) st))))"

text \<open>
  Each branch is the loop nest of the source, written over the lists of the values that
  its counters \<open>i\<close>, \<open>j\<close>, \<open>k\<close> (attacker) and \<open>p\<close>, \<open>q\<close> (defender) take, outermost
  first; \<open>calc_transitions\<close> runs it with every counter going through \<open>1..S\<close>.
\<close>

definition loop_pq :: "(tuple \<rightharpoonup> nat) \<Rightarrow> int list \<Rightarrow> int list \<Rightarrow> int \<Rightarrow> int \<Rightarrow> tally \<Rightarrow> tally" where
  "loop_pq M Ps Qs hi lo st =
     fold (\<lambda>p. fold (\<lambda>q.
       (let pqmax = (if p > q then p else q);
            pqmin = (if p < q then p else q)
        in body_double M hi lo pqmax pqmin)) Qs) Ps st"

text \<open>
  The \<open>k\<close> loop of the \<open>(3,2)\<close> branch leaves the loop (\<open>break\<close>) when \<open>sort_three\<close>
  disagrees with the running minimum and maximum.
\<close>

fun loop_k32 :: "(tuple \<rightharpoonup> nat) \<Rightarrow> int list \<Rightarrow> int list \<Rightarrow> int \<Rightarrow> int \<Rightarrow> int \<Rightarrow> int
    \<Rightarrow> int list \<Rightarrow> tally \<Rightarrow> tally" where
  "loop_k32 M Ps Qs i j ijmax ijmin [] st = st"
| "loop_k32 M Ps Qs i j ijmax ijmin (k # ks) st =
     (let ijkmax = (if k > ijmax then k else ijmax);
          ijkmin = (if k < ijmin then k else ijmin);
          ijk = sort_three i j k
      in if ijk ! 0 \<noteq> ijkmin \<or> ijk ! 2 \<noteq> ijkmax then st
         else let ijkmid = ijk ! 1
              in loop_k32 M Ps Qs i j ijmax ijmin ks (loop_pq M Ps Qs ijkmax ijkmid st))"

definition branch_11 :: "(tuple \<rightharpoonup> nat) \<Rightarrow> int list \<Rightarrow> int list \<Rightarrow> tally \<Rightarrow> tally" where
  "branch_11 M Is Ps st = fold (\<lambda>i. fold (\<lambda>p. body_single M i p) Ps) Is st"

definition branch_21 :: "(tuple \<rightharpoonup> nat) \<Rightarrow> int list \<Rightarrow> int list \<Rightarrow> int list \<Rightarrow> tally \<Rightarrow> tally" where
  "branch_21 M Is Js Ps st =
     fold (\<lambda>i. fold (\<lambda>j.
       (let ijmax = (if i > j then i else j)
        in fold (\<lambda>p. body_single M ijmax p) Ps)) Js) Is st"

definition branch_31 :: "(tuple \<rightharpoonup> nat) \<Rightarrow> int list \<Rightarrow> int list \<Rightarrow> int list \<Rightarrow> int list
    \<Rightarrow> tally \<Rightarrow> tally" where
  "branch_31 M Is Js Ks Ps st =
     fold (\<lambda>i. fold (\<lambda>j.
       (let ijmax = (if i > j then i else j)
        in fold (\<lambda>k.
             (let ijkmax = (if k > ijmax then k else ijmax)
              in fold (\<lambda>p. body_single M ijkmax p) Ps)) Ks)) Js) Is st"

definition branch_12 :: "(tuple \<rightharpoonup> nat) \<Rightarrow> int list \<Rightarrow> int list \<Rightarrow> int list \<Rightarrow> tally \<Rightarrow> tally" where
  "branch_12 M Is Ps Qs st =
     fold (\<lambda>i. fold (\<lambda>p. fold (\<lambda>q.
       (let pqmax = (if p > q then p else q)
        in body_12 M i pqmax)) Qs) Ps) Is st"

definition branch_22 :: "(tuple \<rightharpoonup> nat) \<Rightarrow> int list \<Rightarrow> int list \<Rightarrow> int list \<Rightarrow> int list
    \<Rightarrow> tally \<Rightarrow> tally" where
  "branch_22 M Is Js Ps Qs st =
     fold (\<lambda>i. fold (\<lambda>j.
       (let ijmax = (if i > j then i else j);
            ijmin = (if i < j then i else j)
        in loop_pq M Ps Qs ijmax ijmin)) Js) Is st"

definition branch_32 :: "(tuple \<rightharpoonup> nat) \<Rightarrow> int list \<Rightarrow> int list \<Rightarrow> int list \<Rightarrow> int list
    \<Rightarrow> int list \<Rightarrow> tally \<Rightarrow> tally" where
  "branch_32 M Is Js Ks Ps Qs st =
     fold (\<lambda>i. fold (\<lambda>j.
       (let ijmax = (if i > j then i else j);
            ijmin = (if i < j then i else j)
        in loop_k32 M Ps Qs i j ijmax ijmin Ks)) Js) Is st"

text \<open>
  \<open>calc_transitions\<close> returns the vector \<open>counts\<close> as it leaves it, together with
  its return value.  For \<open>S < 2\<close> it returns 0 before touching \<open>counts\<close>.
\<close>

definition calc_transitions :: "tuple list \<Rightarrow> int list \<Rightarrow> int \<Rightarrow> int \<Rightarrow> int \<Rightarrow> tally" where
  "calc_transitions order counts na nd uniform_dice_sides =
     (let S = uniform_dice_sides in
      if S < 2 then (counts, 0)
      else let M = index_map order;
               st = (replicate (length order) 0, 0)
           in if na = 1 \<and> nd = 1 then branch_11 M [1..S] [1..S] st
              else if na = 2 \<and> nd = 1 then branch_21 M [1..S] [1..S] [1..S] st
              else if na = 3 \<and> nd = 1 then branch_31 M [1..S] [1..S] [1..S] [1..S] st
              else if na = 1 \<and> nd = 2 then branch_12 M [1..S] [1..S] [1..S] st
              else if na = 2 \<and> nd = 2 then branch_22 M [1..S] [1..S] [1..S] [1..S] st
              else if na = 3 \<and> nd = 2 then branch_32 M [1..S] [1..S] [1..S] [1..S] [1..S] st
              else (fst st, 0))"

section \<open>Transition table\<close>

definition dicetuples_T :: "tuple list" where
  "dicetuples_T = [(1, 1), (2, 1), (3, 1), (1, 2), (2, 2), (3, 2)]"

definition transitions_P :: "tuple list" where
  "transitions_P = [(-2, 0), (-1, -1), (-1, 0), (0, -1), (0, -2)]"

text \<open>
  The loop over the dice tuples.  \<open>double\<close> is idealised as \<open>real\<close>: the quotient
  \<open>tcounts[q] / tdenom\<close> is exact.  A \<open>false\<close> return is \<open>None\<close>.
\<close>

fun prob_rows :: "tuple list \<Rightarrow> tuple list \<Rightarrow> int \<Rightarrow> real list list \<Rightarrow> real list list option" where
  "prob_rows transitions [] S probstable = Some probstable"
| "prob_rows transitions (t # ts) S probstable =
     (let na = fst t; nd = snd t;
          (tcounts, tdenom) = calc_transitions transitions [] na nd S
      in if tdenom = 0 then None
         else let row = map (\<lambda>q. real_of_int (tcounts ! q) / real_of_int tdenom)
                            [0..<length transitions];
                  check = fold (\<lambda>q c. wrap32 (c + tcounts ! q)) [0..<length transitions] 0
              in if check \<noteq> tdenom then None
                 else prob_rows transitions ts S (probstable @ [row]))"

definition create_prob_table :: "int \<Rightarrow> (tuple list \<times> tuple list \<times> real list list) option" where
  "create_prob_table uniform_dice_sides =
     (case prob_rows transitions_P dicetuples_T uniform_dice_sides [] of
        None \<Rightarrow> None
      | Some probstable \<Rightarrow> Some (dicetuples_T, transitions_P, probstable))"

section \<open>Win-probability grid\<close>

text \<open>
  The grid is the \<open>std::vector<double>\<close> of \<open>main\<close>, a list of reals (\<open>double\<close> is
  idealised as \<open>real\<close>).  It is addressed through \<open>P.data()[k]\<close>; an access outside the
  vector is undefined behaviour in C++ and ends the run of the model with
  \<open>OutOfBounds\<close>.  \<open>LengthError\<close> is the exception of the vector's constructor for a
  negative size.
\<close>

datatype error = LengthError | OutOfBounds

definition linear_index :: "int \<Rightarrow> int \<Rightarrow> int \<Rightarrow> int \<Rightarrow> int" where
  "linear_index a A d D = wrap32 (wrap32 (wrap32 (1 + A) * d) + a)"

definition read_at :: "real list \<Rightarrow> int \<Rightarrow> error + real" where
  "read_at data k = (if 0 \<le> k \<and> k < int (length data) then Inr (data ! nat k) else Inl OutOfBounds)"

definition write_at :: "real list \<Rightarrow> int \<Rightarrow> real \<Rightarrow> error + real list" where
  "write_at data k v =
     (if 0 \<le> k \<and> k < int (length data) then Inr (data[nat k := v]) else Inl OutOfBounds)"

text \<open>A \<open>for\<close> loop over the values \<open>xs\<close> of its counter; an error ends it.\<close>

fun for_each :: "'a list \<Rightarrow> ('a \<Rightarrow> 's \<Rightarrow> error + 's) \<Rightarrow> 's \<Rightarrow> error + 's" where
  "for_each [] body s = Inr s"
| "for_each (x # xs) body s =
     (case body x s of Inl e \<Rightarrow> Inl e | Inr s' \<Rightarrow> for_each xs body s')"

section \<open>DP solver\<close>

text \<open>
  The loop over the transitions of \<open>update_elements\<close>, started with \<open>this_val = 0\<close>:
  a transition of probability zero is skipped before its index is computed; an
  undetermined target sets \<open>this_val = -1\<close> and leaves the loop.
\<close>

fun sum_targets ::
  "int \<Rightarrow> int \<Rightarrow> real list \<Rightarrow> real \<Rightarrow> tuple list \<Rightarrow> real list \<Rightarrow> int \<Rightarrow> int
     \<Rightarrow> nat list \<Rightarrow> real \<Rightarrow> error + real" where
  "sum_targets A D data unused_value transitions probs a d [] this_val = Inr this_val"
| "sum_targets A D data unused_value transitions probs a d (i # is) this_val =
     (let delta_a = fst (transitions ! i);
          delta_d = snd (transitions ! i);
          prob_qi = probs ! i
      in if prob_qi = 0
         then sum_targets A D data unused_value transitions probs a d is this_val
         else let idx = linear_index (a + delta_a) A (d + delta_d) D
              in case read_at data idx of
                   Inl e \<Rightarrow> Inl e
                 | Inr v \<Rightarrow>
                     if v = unused_value then Inr (- 1)
                     else sum_targets A D data unused_value transitions probs a d is
                            (this_val + prob_qi * v))"

text \<open>The body of the two nested loops of \<open>update_elements\<close>, for the cell \<open>(a, d)\<close>.\<close>

definition update_cell ::
  "int \<Rightarrow> int \<Rightarrow> real \<Rightarrow> (tuple \<rightharpoonup> nat) \<Rightarrow> tuple list \<Rightarrow> real list list \<Rightarrow> int \<Rightarrow> int
     \<Rightarrow> real list \<times> int \<Rightarrow> error + real list \<times> int" where
  "update_cell A D unused_value dice_map transitions probstable a d st =
     (case st of (data, num_updated) \<Rightarrow>
        case read_at data (linear_index a A d D) of
          Inl e \<Rightarrow> Inl e
        | Inr v \<Rightarrow>
            if v \<noteq> unused_value then Inr (data, num_updated)
            else let na = attacker_dice a;
                     nd = defender_dice d;
                     q = lookup0 dice_map (na, nd)
                 in case sum_targets A D data unused_value transitions (probstable ! q) a d
                           [0..<length transitions] 0 of
                      Inl e \<Rightarrow> Inl e
                    | Inr this_val \<Rightarrow>
                        if this_val \<ge> 0
                        then (case write_at data (linear_index a A d D) this_val of
                                Inl e \<Rightarrow> Inl e
                              | Inr data' \<Rightarrow> Inr (data', num_updated + 1))
                        else Inr (data, num_updated))"

definition update_elements ::
  "int \<Rightarrow> int \<Rightarrow> real list \<Rightarrow> real \<Rightarrow> tuple list \<Rightarrow> tuple list \<Rightarrow> real list list
     \<Rightarrow> error + real list \<times> int" where
  "update_elements A D P unused_value dicetuples transitions probstable =
     (let dice_map = index_map dicetuples
      in for_each [1..A] (\<lambda>a.
           for_each [1..D] (\<lambda>d.
             update_cell A D unused_value dice_map transitions probstable a d)) (P, 0))"

section \<open>The program\<close>

text \<open>
  The first loops of \<open>main\<close> in DP mode: every cell is set to the sentinel, then the
  boundary cells are set.
\<close>

definition unused_value :: real where
  "unused_value = - 1"

definition init_grid :: "int \<Rightarrow> int \<Rightarrow> real list \<Rightarrow> error + real list" where
  "init_grid A D P =
     (case for_each [0..A] (\<lambda>i.
             for_each [0..D] (\<lambda>j P. write_at P (linear_index i A j D) unused_value)) P of
        Inl e \<Rightarrow> Inl e
      | Inr P1 \<Rightarrow>
          (case for_each [0..D] (\<lambda>j P.
                  case write_at P (linear_index 0 A j D) 0 of
                    Inl e \<Rightarrow> Inl e
                  | Inr P' \<Rightarrow> write_at P' (linear_index 1 A j D) 0) P1 of
             Inl e \<Rightarrow> Inl e
           | Inr P2 \<Rightarrow> for_each [2..A] (\<lambda>i P. write_at P (linear_index i A 0 D) 1) P2))"

text \<open>
  The relaxation loop \<open>for (;;)\<close>: it returns the grid, \<open>elems_total\<close> and \<open>passes\<close>
  when a pass updates nothing.  A run that never leaves the loop is \<open>None\<close>.
\<close>

partial_function (option) relax ::
  "int \<Rightarrow> int \<Rightarrow> tuple list \<Rightarrow> tuple list \<Rightarrow> real list list \<Rightarrow> real list \<Rightarrow> int \<Rightarrow> int
     \<Rightarrow> (error + real list \<times> int \<times> int) option" where
  "relax A D dicetuples transitions probstable P elems_total passes =
     (case update_elements A D P unused_value dicetuples transitions probstable of
        Inl e \<Rightarrow> Some (Inl e)
      | Inr (P', elems) \<Rightarrow>
          if elems = 0 then Some (Inr (P', elems_total, passes + 1))
          else relax A D dicetuples transitions probstable P' (elems_total + elems) (passes + 1))"

text \<open>The rows \<open>a = 0..A\<close> of the printed table, each with the columns \<open>d = 0..D\<close>.\<close>

definition grid_rows :: "int \<Rightarrow> int \<Rightarrow> real list \<Rightarrow> error + real list list" where
  "grid_rows A D P =
     for_each [0..A] (\<lambda>a rows.
       case for_each [0..D] (\<lambda>d row.
              case read_at P (linear_index a A d D) of
                Inl e \<Rightarrow> Inl e
              | Inr v \<Rightarrow> Inr (row @ [v])) [] of
         Inl e \<Rightarrow> Inl e
       | Inr row \<Rightarrow> Inr (rows @ [row])) []"

datatype printed =
    Usage
  | Requiring
  | Estimate real
  | ProbTableFailed
  | DPFailed int
  | Grid "real list list"

datatype result = Exit int printed | Abort error

text \<open>
  \<open>main\<close> gets \<open>argc\<close> and the numbers \<open>arg1\<close>, \<open>arg2\<close>, \<open>arg3\<close> that \<open>strtol\<close> reads from
  \<open>argv[1]\<close>, \<open>argv[2]\<close> and (when present) \<open>argv[3]\<close>; \<open>static_cast<int>\<close> brings them
  into the range of \<open>int\<close>.  \<open>gens i\<close> is the generator of the \<open>i\<close>-th simulated battle.
  The result is the exit status with what was printed (the numbers themselves, not their
  decimal rendering), or the abnormal end of the run.  The counters \<open>num_updated\<close>,
  \<open>elems_total\<close> and \<open>passes\<close> count cells and passes of a grid whose size fits an
  \<open>int\<close>, so they are not wrapped.
\<close>

definition main :: "int \<Rightarrow> int \<Rightarrow> int \<Rightarrow> int \<Rightarrow> (nat \<Rightarrow> nat \<Rightarrow> int) \<Rightarrow> result option" where
  "main argc arg1 arg2 arg3 gens =
     (let uniform_dice_sides = 6 in
      if argc \<noteq> 3 \<and> argc \<noteq> 4 then Some (Exit 1 Usage)
      else let A = wrap32 arg1; D = wrap32 arg2; N = (if argc > 3 then wrap32 arg3 else 0) in
        if A < 2 \<or> D < 1 then Some (Exit 1 Requiring)
        else if N \<ge> 1 then
          (let num_atk_wins =
                 sum_list (map (\<lambda>i. simulate_battle A D uniform_dice_sides (gens i)) [0..<nat N])
           in Some (Exit 0 (Estimate (real_of_int num_atk_wins / real_of_int N))))
        else
          (let sz = wrap32 (wrap32 (1 + A) * wrap32 (1 + D)) in
           if sz < 0 then Some (Abort LengthError)
           else case init_grid A D (replicate (nat sz) 0) of
                  Inl e \<Rightarrow> Some (Abort e)
                | Inr P \<Rightarrow>
                   (case create_prob_table uniform_dice_sides of
                      None \<Rightarrow> Some (Exit 1 ProbTableFailed)
                    | Some (dicetuples, transitions, probstable) \<Rightarrow>
                       (case relax A D dicetuples transitions probstable P 0 0 of
                          None \<Rightarrow> None
                        | Some (Inl e) \<Rightarrow> Some (Abort e)
                        | Some (Inr (P', elems_total, passes)) \<Rightarrow>
                            if elems_total \<noteq> (A - 1) * D then Some (Exit 1 (DPFailed passes))
                            else (case grid_rows A D P' of
                                    Inl e \<Rightarrow> Some (Abort e)
                                  | Inr rows \<Rightarrow> Some (Exit 0 (Grid rows)))))))"

section \<open>The enumeration in the words of the specification\<close>

text \<open>
  The specification describes the enumerator through the combat rule: every joint tuple
  of \<open>na\<close> attacker dice and \<open>nd\<close> defender dice with faces in \<open>1..S\<close> is resolved by
  the generic round (sort both sides descending, \<open>min na nd\<close> comparisons, the defender
  wins ties) and the resulting outcome delta is counted.

  \<open>count_outcome order delta\<close> counts the delta once: the counter of every position at
  which \<open>order\<close> holds \<open>delta\<close> goes up by one, every other counter is left alone, and the
  total goes up by one (on 32-bit integers).  \<open>enumerate_by_rule\<close> counts, for every
  joint tuple, the delta that the round of \<open>simulate_battle\<close> gives; it is compared with
  \<open>calc_transitions\<close> below.
\<close>

fun rolls :: "nat \<Rightarrow> int \<Rightarrow> int list list" where
  "rolls 0 S = [[]]"
| "rolls (Suc n) S = concat (map (\<lambda>x. map (\<lambda>r. x # r) (rolls n S)) [1..S])"

definition count_outcome :: "tuple list \<Rightarrow> tuple \<Rightarrow> tally \<Rightarrow> tally" where
  "count_outcome order delta st =
     (map (\<lambda>n. if n < length order \<and> order ! n = delta
                then wrap32 (fst st ! n + 1) else fst st ! n) [0..<length (fst st)],
      wrap32 (snd st + 1))"

definition enumerate_by_rule :: "tuple list \<Rightarrow> int \<Rightarrow> int \<Rightarrow> int \<Rightarrow> tally" where
  "enumerate_by_rule order na nd S =
     fold (\<lambda>as. fold (\<lambda>ds. count_outcome order (battle_round na nd as ds (0, 0)))
                        (rolls (nat nd) S))
          (rolls (nat na) S) (replicate (length order) 0, 0)"

section \<open>Auxiliary notions for the proofs\<close>

text \<open>
  \<open>tallied n st\<close>: the tally \<open>st\<close> is what \<open>n\<close> iterations leave behind: the five counts
  are the 32-bit images of natural numbers that add up to \<open>n\<close>, and the total is the
  32-bit image of \<open>n\<close>.
\<close>

definition counted :: "nat \<Rightarrow> int list \<Rightarrow> bool" where
  "counted n cs \<longleftrightarrow>
     (\<exists>ns. length ns = 5 \<and> cs = map (\<lambda>m. wrap32 (int m)) ns \<and> sum_list ns = n)"

definition tallied :: "nat \<Rightarrow> tally \<Rightarrow> bool" where
  "tallied n st \<longleftrightarrow> counted n (fst st) \<and> snd st = wrap32 (int n)"

text \<open>\<open>tally_delta M delta\<close>: the two statements \<open>counts[M[delta]] += 1; O += 1\<close>.\<close>

definition tally_delta :: "(tuple \<rightharpoonup> nat) \<Rightarrow> tuple \<Rightarrow> tally \<Rightarrow> tally" where
  "tally_delta M delta st = tick (bump M delta st)"

text \<open>
  \<open>table_6\<close> is the transition table for six-sided dice: row \<open>t\<close> belongs to the dice
  tuple \<open>dicetuples_T ! t\<close>, column \<open>i\<close> to the outcome delta \<open>transitions_P ! i\<close>.
\<close>

definition table_6 :: "real list list" where
  "table_6 =
     [[0, 0, 21 / 36, 15 / 36, 0],
      [0, 0, 91 / 216, 125 / 216, 0],
      [0, 0, 441 / 1296, 855 / 1296, 0],
      [0, 0, 161 / 216, 55 / 216, 0],
      [581 / 1296, 420 / 1296, 0, 0, 295 / 1296],
      [2275 / 7776, 2611 / 7776, 0, 0, 2890 / 7776]]"

text \<open>
  The solver is analysed on an abstract grid, a function from the coordinates \<open>(a, d)\<close> to
  the value of the cell.  \<open>grid_is A D f P\<close>: the vector \<open>P\<close> has the \<open>(1+A)*(1+D)\<close>
  entries of the grid, that number fits an \<open>int\<close>, and \<open>P\<close> holds \<open>f a d\<close> at the linear
  index of every cell.  \<open>sum_abs\<close>, \<open>acell\<close> and \<open>apass\<close> are the transition loop, the
  loop body and the whole pass of \<open>update_elements\<close> on the abstract grid, for the
  tables of the program.
\<close>

definition config_index :: "int \<Rightarrow> int \<Rightarrow> nat" where
  "config_index a d = lookup0 (index_map dicetuples_T) (attacker_dice a, defender_dice d)"

definition grid_is :: "int \<Rightarrow> int \<Rightarrow> (int \<Rightarrow> int \<Rightarrow> real) \<Rightarrow> real list \<Rightarrow> bool" where
  "grid_is A D f P \<longleftrightarrow>
     0 \<le> A \<and> 0 \<le> D \<and> (1 + A) * (1 + D) \<le> 2147483647
     \<and> length P = nat ((1 + A) * (1 + D))
     \<and> (\<forall>a d. 0 \<le> a \<and> a \<le> A \<and> 0 \<le> d \<and> d \<le> D \<longrightarrow> P ! nat ((1 + A) * d + a) = f a d)"

fun sum_abs ::
  "(int \<Rightarrow> int \<Rightarrow> real) \<Rightarrow> real \<Rightarrow> real list \<Rightarrow> int \<Rightarrow> int \<Rightarrow> nat list \<Rightarrow> real \<Rightarrow> real" where
  "sum_abs f u probs a d [] this_val = this_val"
| "sum_abs f u probs a d (i # is) this_val =
     (if probs ! i = 0 then sum_abs f u probs a d is this_val
      else if f (a + fst (transitions_P ! i)) (d + snd (transitions_P ! i)) = u then - 1
      else sum_abs f u probs a d is
             (this_val + probs ! i * f (a + fst (transitions_P ! i)) (d + snd (transitions_P ! i))))"

definition acell ::
  "real \<Rightarrow> int \<Rightarrow> int \<Rightarrow> (int \<Rightarrow> int \<Rightarrow> real) \<times> int \<Rightarrow> (int \<Rightarrow> int \<Rightarrow> real) \<times> int" where
  "acell u a d st =
     (case st of (f, n) \<Rightarrow>
        if f a d \<noteq> u then (f, n)
        else let v = sum_abs f u (table_6 ! config_index a d) a d [0..<5] 0
             in if v \<ge> 0 then (\<lambda>x y. if x = a \<and> y = d then v else f x y, n + 1)
                else (f, n))"

definition apass ::
  "int \<Rightarrow> int \<Rightarrow> real \<Rightarrow> (int \<Rightarrow> int \<Rightarrow> real) \<Rightarrow> (int \<Rightarrow> int \<Rightarrow> real) \<times> int" where
  "apass A D u f = fold (\<lambda>a. fold (\<lambda>d. acell u a d) [1..D]) [1..A] (f, 0)"

text \<open>
  \<open>kept u f0 f\<close>: the grid \<open>f\<close> differs from \<open>f0\<close> only in cells that held the sentinel
  \<open>u\<close> in \<open>f0\<close>; such a cell now holds a non-negative value, and every target of
  non-zero probability of it is resolved in \<open>f\<close>.
\<close>

definition kept :: "real \<Rightarrow> (int \<Rightarrow> int \<Rightarrow> real) \<Rightarrow> (int \<Rightarrow> int \<Rightarrow> real) \<Rightarrow> bool" where
  "kept u f0 f \<longleftrightarrow>
     (\<forall>x y. f x y \<noteq> f0 x y \<longrightarrow>
        f0 x y = u \<and> 0 \<le> f x y
        \<and> (\<forall>i\<in>set [0..<5]. table_6 ! config_index x y ! i \<noteq> 0 \<longrightarrow>
              f (x + fst (transitions_P ! i)) (y + snd (transitions_P ! i)) \<noteq> u))"

text \<open>
  \<open>win_prob a d\<close> is the solution of the recurrence that the solver relaxes: 0 for
  \<open>a \<le> 1\<close>, 1 for \<open>a \<ge> 2\<close> and \<open>d \<le> 0\<close>, and otherwise the sum over the five outcome
  deltas of the probability of the delta (in the row of the dice configuration of
  \<open>(a, d)\<close>) times the value at the target.  \<open>solved D a0 d0\<close> is the grid in the middle
  of the first pass: the boundary and the cells up to \<open>(a0, d0)\<close> in scanning order hold
  \<open>win_prob\<close>, the others the sentinel.  \<open>put f i j v\<close> is the grid \<open>f\<close> with \<open>v\<close> stored
  in the cell \<open>(i, j)\<close>.
\<close>

function win_prob :: "int \<Rightarrow> int \<Rightarrow> real" where
  "win_prob a d =
     (if a \<le> 1 then 0
      else if d \<le> 0 then 1
      else (let row = table_6 ! config_index a d
            in row ! 0 * win_prob (a - 2) d + row ! 1 * win_prob (a - 1) (d - 1)
               + row ! 2 * win_prob (a - 1) d + row ! 3 * win_prob a (d - 1)
               + row ! 4 * win_prob a (d - 2)))"
  by pat_completeness auto
termination
  by (relation "measure (\<lambda>(a, d). nat (a + d))") auto

declare win_prob.simps [simp del]

definition solved :: "int \<Rightarrow> int \<Rightarrow> int \<Rightarrow> int \<Rightarrow> int \<Rightarrow> real" where
  "solved D a0 d0 a d =
     (if a \<le> 1 \<or> d \<le> 0 \<or> D < d \<or> a < a0 \<or> (a = a0 \<and> d \<le> d0) then win_prob a d
      else unused_value)"

definition put :: "(int \<Rightarrow> int \<Rightarrow> real) \<Rightarrow> int \<Rightarrow> int \<Rightarrow> real \<Rightarrow> int \<Rightarrow> int \<Rightarrow> real" where
  "put f i j v = (\<lambda>x y. if x = i \<and> y = j then v else f x y)"

section \<open>The enumerator counts every tuple once\<close>

lemma wrap32_id: "- 2147483648 \<le> x \<Longrightarrow> x \<le> 2147483647 \<Longrightarrow> wrap32 x = x"
  by (simp add: wrap32_def)

lemma wrap32_add_left: "wrap32 (wrap32 x + y) = wrap32 (x + y)"
proof -
  have "wrap32 x + y + 2147483648 = (x + 2147483648) mod 4294967296 + y"
    by (simp add: wrap32_def)
  also have "\<dots> mod 4294967296 = (x + 2147483648 + y) mod 4294967296"
    by (rule mod_add_left_eq)
  also have "x + 2147483648 + y = x + y + 2147483648"
    by simp
  finally show ?thesis
    unfolding wrap32_def [of "wrap32 x + y"] wrap32_def [of "x + y"] by simp
qed

lemma wrap32_succ: "wrap32 (wrap32 x + 1) = wrap32 (x + 1)"
  by (rule wrap32_add_left)

lemma wrap32_succ': "wrap32 (1 + wrap32 x) = wrap32 (1 + x)"
  using wrap32_add_left [of x 1] by (simp add: add.commute)

lemma upt5: "[0..<5] = [0, 1, 2, 3, 4]"
  by code_simp

lemma index_map_P:
  "index_map transitions_P (-2, 0) = Some 0"
  "index_map transitions_P (-1, -1) = Some 1"
  "index_map transitions_P (-1, 0) = Some 2"
  "index_map transitions_P (0, -1) = Some 3"
  "index_map transitions_P (0, -2) = Some 4"
  by (simp_all add: index_map_def transitions_P_def upt5)

lemma lookup0_P:
  "lookup0 (index_map transitions_P) (-2, 0) = 0"
  "lookup0 (index_map transitions_P) (-1, -1) = 1"
  "lookup0 (index_map transitions_P) (-1, 0) = 2"
  "lookup0 (index_map transitions_P) (0, -1) = 3"
  "lookup0 (index_map transitions_P) (0, -2) = 4"
  by (simp_all add: lookup0_def index_map_P)

lemma counted_bump:
  assumes "counted n cs" and "i < 5"
  shows "counted (Suc n) (cs[i := wrap32 (cs ! i + 1)])"
proof -
  from assms(1) obtain ns where ns: "length ns = 5" "cs = map (\<lambda>m. wrap32 (int m)) ns"
    "sum_list ns = n"
    by (auto simp: counted_def)
  let ?ns = "ns[i := Suc (ns ! i)]"
  have "wrap32 (cs ! i + 1) = wrap32 (int (Suc (ns ! i)))"
    using ns assms(2) by (simp add: wrap32_succ wrap32_succ' add.commute)
  then have "cs[i := wrap32 (cs ! i + 1)] = map (\<lambda>m. wrap32 (int m)) ?ns"
    using ns by (simp add: map_update)
  moreover have "sum_list ?ns = Suc n"
    using ns assms(2) by (simp add: sum_list_update)
  moreover have "length ?ns = 5" using ns by simp
  ultimately show ?thesis unfolding counted_def by blast
qed

lemma tallied_step:
  assumes "tallied n st" and "key \<in> set transitions_P"
  shows "tallied (Suc n) (tick (bump (index_map transitions_P) key st))"
proof -
  obtain cs k where st: "st = (cs, k)" by (cases st)
  have "lookup0 (index_map transitions_P) key < 5"
    using assms(2) by (auto simp: transitions_P_def lookup0_P[unfolded transitions_P_def])
  then have "counted (Suc n) (cs[lookup0 (index_map transitions_P) key :=
      wrap32 (cs ! lookup0 (index_map transitions_P) key + 1)])"
    using assms(1) unfolding tallied_def st by (simp add: counted_bump)
  moreover have "wrap32 (k + 1) = wrap32 (int (Suc n))"
    using assms(1) unfolding tallied_def st by (simp add: wrap32_succ wrap32_succ' add.commute)
  ultimately show ?thesis
    unfolding tallied_def st by (simp add: bump_def tick_def)
qed

lemma tallied_body_single:
  assumes "tallied n st"
  shows "tallied (Suc n) (body_single (index_map transitions_P) amax p st)"
proof (cases "amax \<le> p")
  case True
  have "(-1, 0) \<in> set transitions_P" by (simp add: transitions_P_def)
  from tallied_step [OF assms this] True show ?thesis
    by (simp add: body_single_def when_do_def)
next
  case False
  have "(0, -1) \<in> set transitions_P" by (simp add: transitions_P_def)
  from tallied_step [OF assms this] False show ?thesis
    by (simp add: body_single_def when_do_def)
qed

lemma tallied_body_12:
  assumes "tallied n st"
  shows "tallied (Suc n) (body_12 (index_map transitions_P) i pqmax st)"
proof (cases "pqmax < i")
  case True
  have "(0, -1) \<in> set transitions_P" by (simp add: transitions_P_def)
  from tallied_step [OF assms this] True show ?thesis
    by (simp add: body_12_def when_do_def)
next
  case False
  have "(-1, 0) \<in> set transitions_P" by (simp add: transitions_P_def)
  from tallied_step [OF assms this] False show ?thesis
    by (simp add: body_12_def when_do_def)
qed

lemma tallied_body_double:
  assumes "tallied n st"
  shows "tallied (Suc n) (body_double (index_map transitions_P) hi lo pqmax pqmin st)"
proof -
  have m: "(-2, 0) \<in> set transitions_P" "(-1, -1) \<in> set transitions_P"
    "(0, -2) \<in> set transitions_P"
    by (simp_all add: transitions_P_def)
  consider "hi > pqmax \<and> lo > pqmin" | "hi \<le> pqmax \<and> lo > pqmin"
    | "hi > pqmax \<and> lo \<le> pqmin" | "hi \<le> pqmax \<and> lo \<le> pqmin"
    by linarith
  then show ?thesis
  proof cases
    case 1
    with tallied_step [OF assms m(3)] show ?thesis
      by (simp add: body_double_def when_do_def)
  next
    case 2
    with tallied_step [OF assms m(2)] show ?thesis
      by (simp add: body_double_def when_do_def)
  next
    case 3
    with tallied_step [OF assms m(2)] show ?thesis
      by (simp add: body_double_def when_do_def)
  next
    case 4
    with tallied_step [OF assms m(1)] show ?thesis
      by (simp add: body_double_def when_do_def)
  qed
qed

lemma tallied_fold:
  assumes "\<And>x n st. tallied n st \<Longrightarrow> tallied (n + k) (f x st)"
  shows "tallied n st \<Longrightarrow> tallied (n + length xs * k) (fold f xs st)"
proof (induction xs arbitrary: n st)
  case Nil
  then show ?case by simp
next
  case (Cons x xs)
  from assms [OF Cons.prems] have "tallied (n + k) (f x st)" .
  from Cons.IH [OF this] show ?case by (simp add: add.assoc)
qed

lemma length_faces: "length [1..S] = nat S"
  by simp

lemma tallied_loop_pq:
  assumes "tallied n st"
  shows "tallied (n + nat S * nat S) (loop_pq (index_map transitions_P) [1..S] [1..S] hi lo st)"
proof -
  have inner: "tallied m (fold (\<lambda>q. (let pqmax = (if p > q then p else q);
            pqmin = (if p < q then p else q)
        in body_double (index_map transitions_P) hi lo pqmax pqmin)) [1..S] s)"
    if "tallied m' s" "m = m' + nat S" for p m m' s
    using tallied_fold [where k = 1 and xs = "[1..S]" and n = m' and st = s
        and f = "\<lambda>q. (let pqmax = (if p > q then p else q);
            pqmin = (if p < q then p else q)
        in body_double (index_map transitions_P) hi lo pqmax pqmin)"] that
    by (simp add: tallied_body_double Let_def)
  show ?thesis
    unfolding loop_pq_def
    using tallied_fold [where k = "nat S" and xs = "[1..S]" and n = n and st = st
        and f = "\<lambda>p. fold (\<lambda>q. (let pqmax = (if p > q then p else q);
            pqmin = (if p < q then p else q)
        in body_double (index_map transitions_P) hi lo pqmax pqmin)) [1..S]"] assms inner
    by simp
qed


lemma tallied_fold_single:
  assumes "tallied n st"
  shows "tallied (n + nat S) (fold (\<lambda>p. body_single (index_map transitions_P) amax p) [1..S] st)"
  using tallied_fold [where k = 1 and xs = "[1..S]" and n = n and st = st
      and f = "\<lambda>p. body_single (index_map transitions_P) amax p"] assms
  by (simp add: tallied_body_single)

lemma tallied_branch_11:
  assumes "tallied n st"
  shows "tallied (n + nat S * nat S) (branch_11 (index_map transitions_P) [1..S] [1..S] st)"
  unfolding branch_11_def
  using tallied_fold [where k = "nat S" and xs = "[1..S]" and n = n and st = st
      and f = "\<lambda>i. fold (\<lambda>p. body_single (index_map transitions_P) i p) [1..S]"] assms
  by (simp add: tallied_fold_single)

lemma tallied_branch_21:
  assumes "tallied n st"
  shows "tallied (n + nat S * (nat S * nat S)) (branch_21 (index_map transitions_P) [1..S] [1..S] [1..S] st)"
proof -
  let ?g = "\<lambda>i j. (let ijmax = (if i > j then i else j)
        in fold (\<lambda>p. body_single (index_map transitions_P) ijmax p) [1..S])"
  have mid: "tallied (m + nat S * nat S) (fold (?g i) [1..S] s)" if "tallied m s" for i m s
    using tallied_fold [where k = "nat S" and xs = "[1..S]" and n = m and st = s
        and f = "?g i"] that
    by (simp add: tallied_fold_single Let_def)
  show ?thesis
    unfolding branch_21_def
    using tallied_fold [where k = "nat S * nat S" and xs = "[1..S]" and n = n and st = st
        and f = "\<lambda>i. fold (?g i) [1..S]"] assms mid
    by simp
qed

lemma tallied_branch_31:
  assumes "tallied n st"
  shows "tallied (n + nat S * (nat S * (nat S * nat S))) (branch_31 (index_map transitions_P) [1..S] [1..S] [1..S] [1..S] st)"
proof -
  let ?h = "\<lambda>ijmax k. (let ijkmax = (if k > ijmax then k else ijmax)
              in fold (\<lambda>p. body_single (index_map transitions_P) ijkmax p) [1..S])"
  let ?g = "\<lambda>i j. (let ijmax = (if i > j then i else j) in fold (?h ijmax) [1..S])"
  have low: "tallied (m + nat S * nat S) (fold (?h x) [1..S] s)" if "tallied m s" for x m s
    using tallied_fold [where k = "nat S" and xs = "[1..S]" and n = m and st = s
        and f = "?h x"] that
    by (simp add: tallied_fold_single Let_def)
  have mid: "tallied (m + nat S * (nat S * nat S)) (fold (?g i) [1..S] s)" if "tallied m s" for i m s
    using tallied_fold [where k = "nat S * nat S" and xs = "[1..S]" and n = m and st = s
        and f = "?g i"] that low
    by (simp add: Let_def)
  show ?thesis
    unfolding branch_31_def
    using tallied_fold [where k = "nat S * (nat S * nat S)" and xs = "[1..S]" and n = n and st = st
        and f = "\<lambda>i. fold (?g i) [1..S]"] assms mid
    by simp
qed

lemma tallied_branch_12:
  assumes "tallied n st"
  shows "tallied (n + nat S * (nat S * nat S)) (branch_12 (index_map transitions_P) [1..S] [1..S] [1..S] st)"
proof -
  let ?h = "\<lambda>i p q. (let pqmax = (if p > q then p else q)
        in body_12 (index_map transitions_P) i pqmax)"
  have low: "tallied (m + nat S) (fold (?h i p) [1..S] s)" if "tallied m s" for i p m s
    using tallied_fold [where k = 1 and xs = "[1..S]" and n = m and st = s
        and f = "?h i p"] that
    by (simp add: tallied_body_12 Let_def)
  have mid: "tallied (m + nat S * nat S) (fold (\<lambda>p. fold (?h i p) [1..S]) [1..S] s)"
    if "tallied m s" for i m s
    using tallied_fold [where k = "nat S" and xs = "[1..S]" and n = m and st = s
        and f = "\<lambda>p. fold (?h i p) [1..S]"] that low
    by simp
  show ?thesis
    unfolding branch_12_def
    using tallied_fold [where k = "nat S * nat S" and xs = "[1..S]" and n = n and st = st
        and f = "\<lambda>i. fold (\<lambda>p. fold (?h i p) [1..S]) [1..S]"] assms mid
    by simp
qed

lemma tallied_branch_22:
  assumes "tallied n st"
  shows "tallied (n + nat S * (nat S * (nat S * nat S))) (branch_22 (index_map transitions_P) [1..S] [1..S] [1..S] [1..S] st)"
proof -
  let ?g = "\<lambda>i j. (let ijmax = (if i > j then i else j);
            ijmin = (if i < j then i else j)
        in loop_pq (index_map transitions_P) [1..S] [1..S] ijmax ijmin)"
  have mid: "tallied (m + nat S * (nat S * nat S)) (fold (?g i) [1..S] s)" if "tallied m s" for i m s
    using tallied_fold [where k = "nat S * nat S" and xs = "[1..S]" and n = m and st = s
        and f = "?g i"] that
    by (simp add: tallied_loop_pq Let_def)
  show ?thesis
    unfolding branch_22_def
    using tallied_fold [where k = "nat S * (nat S * nat S)" and xs = "[1..S]" and n = n and st = st
        and f = "\<lambda>i. fold (?g i) [1..S]"] assms mid
    by simp
qed

lemma sort_three_ends:
  "sort_three i j k ! 0 = (if k < (if i < j then i else j) then k else (if i < j then i else j))"
  "sort_three i j k ! 2 = (if k > (if i > j then i else j) then k else (if i > j then i else j))"
  by (simp_all add: sort_three_def)

lemma tallied_loop_k32:
  assumes "ijmax = (if i > j then i else j)" and "ijmin = (if i < j then i else j)"
  shows "tallied n st \<Longrightarrow>
    tallied (n + length ks * (nat S * nat S))
      (loop_k32 (index_map transitions_P) [1..S] [1..S] i j ijmax ijmin ks st)"
proof (induction ks arbitrary: n st)
  case Nil
  then show ?case by simp
next
  case (Cons k ks)
  let ?hi = "if k > ijmax then k else ijmax"
  let ?mid = "sort_three i j k ! 1"
  have step: "tallied (n + nat S * nat S) (loop_pq (index_map transitions_P) [1..S] [1..S] ?hi ?mid st)"
    using Cons.prems by (rule tallied_loop_pq)
  have "loop_k32 (index_map transitions_P) [1..S] [1..S] i j ijmax ijmin (k # ks) st =
        loop_k32 (index_map transitions_P) [1..S] [1..S] i j ijmax ijmin ks
          (loop_pq (index_map transitions_P) [1..S] [1..S] ?hi ?mid st)"
    using assms by (simp add: sort_three_ends Let_def)
  with Cons.IH [OF step] show ?case
    by (simp add: add.assoc)
qed

lemma tallied_branch_32:
  assumes "tallied n st"
  shows "tallied (n + nat S * (nat S * (nat S * (nat S * nat S))))
           (branch_32 (index_map transitions_P) [1..S] [1..S] [1..S] [1..S] [1..S] st)"
proof -
  let ?g = "\<lambda>i j. (let ijmax = (if i > j then i else j);
            ijmin = (if i < j then i else j)
        in loop_k32 (index_map transitions_P) [1..S] [1..S] i j ijmax ijmin [1..S])"
  have low: "tallied (m + nat S * (nat S * nat S)) (?g i j s)" if "tallied m s" for i j m s
    using tallied_loop_k32 [where i = i and j = j and S = S and ks = "[1..S]" and n = m
        and st = s, OF refl refl that]
    by (simp add: Let_def)
  have mid: "tallied (m + nat S * (nat S * (nat S * nat S))) (fold (?g i) [1..S] s)"
    if "tallied m s" for i m s
    using tallied_fold [where k = "nat S * (nat S * nat S)" and xs = "[1..S]" and n = m and st = s
        and f = "?g i"] that low
    by simp
  show ?thesis
    unfolding branch_32_def
    using tallied_fold [where k = "nat S * (nat S * (nat S * nat S))" and xs = "[1..S]"
        and n = n and st = st and f = "\<lambda>i. fold (?g i) [1..S]"] assms mid
    by simp
qed

lemma tallied_start: "tallied 0 (replicate (length transitions_P) 0, 0)"
proof -
  have "counted 0 (replicate (length transitions_P) 0)"
    unfolding counted_def
    by (rule exI [of _ "[0, 0, 0, 0, 0]"]) (simp add: wrap32_def transitions_P_def)
  then show ?thesis
    by (simp add: tallied_def wrap32_def)
qed

lemma calc_transitions_tallied:
  assumes "2 \<le> S" and "(na, nd) \<in> set dicetuples_T"
  shows "tallied (nat S ^ nat (na + nd)) (calc_transitions transitions_P cs na nd S)"
proof -
  let ?M = "index_map transitions_P"
  let ?st = "(replicate (length transitions_P) 0, 0 :: int)"
  from assms(2) consider "na = 1 \<and> nd = 1" | "na = 2 \<and> nd = 1" | "na = 3 \<and> nd = 1"
    | "na = 1 \<and> nd = 2" | "na = 2 \<and> nd = 2" | "na = 3 \<and> nd = 2"
    by (auto simp: dicetuples_T_def)
  then show ?thesis
  proof cases
    case 1
    with tallied_branch_11 [OF tallied_start, of S] assms(1) show ?thesis
      by (simp add: calc_transitions_def power2_eq_square mult.assoc)
  next
    case 2
    with tallied_branch_21 [OF tallied_start, of S] assms(1) show ?thesis
      by (simp add: calc_transitions_def power3_eq_cube mult.assoc)
  next
    case 3
    with tallied_branch_31 [OF tallied_start, of S] assms(1) show ?thesis
      by (simp add: calc_transitions_def power4_eq_xxxx mult.assoc)
  next
    case 4
    with tallied_branch_12 [OF tallied_start, of S] assms(1) show ?thesis
      by (simp add: calc_transitions_def power3_eq_cube mult.assoc)
  next
    case 5
    with tallied_branch_22 [OF tallied_start, of S] assms(1) show ?thesis
      by (simp add: calc_transitions_def power4_eq_xxxx mult.assoc)
  next
    case 6
    with tallied_branch_32 [OF tallied_start, of S] assms(1) show ?thesis
      by (simp add: calc_transitions_def numeral_eq_Suc mult.assoc)
  qed
qed


lemma tallied_exact:
  assumes "tallied n st" and "int n \<le> 2147483647"
  shows "snd st = int n" and "length (fst st) = 5" and "\<forall>c\<in>set (fst st). 0 \<le> c"
    and "sum_list (fst st) = int n"
proof -
  from assms(1) obtain ns where ns: "length ns = 5" "fst st = map (\<lambda>m. wrap32 (int m)) ns"
    "sum_list ns = n" and k: "snd st = wrap32 (int n)"
    by (auto simp: tallied_def counted_def)
  have "wrap32 (int m) = int m" if "m \<in> set ns" for m
  proof -
    from that have "m \<le> n" using ns(3) member_le_sum_list by blast
    with assms(2) show ?thesis by (simp add: wrap32_id)
  qed
  then have eq: "fst st = map int ns"
    using ns(2) by simp
  show "snd st = int n" using k assms(2) by (simp add: wrap32_id)
  show "length (fst st) = 5" using eq ns(1) by simp
  show "\<forall>c\<in>set (fst st). 0 \<le> c" using eq by auto
  have "sum_list (map int ns) = int (sum_list ns)"
    by (induction ns) simp_all
  then show "sum_list (fst st) = int n" using eq ns(3) by simp
qed

lemma list5:
  assumes "length xs = 5"
  obtains x0 x1 x2 x3 x4 where "xs = [x0, x1, x2, x3, x4]"
  using assms by (auto simp: numeral_eq_Suc length_Suc_conv)

lemma row_check:
  assumes "length cs = 5" and "sum_list cs = den" and "0 \<le> den" and "den \<le> 2147483647"
  shows "fold (\<lambda>q c. wrap32 (c + cs ! q)) [0..<length transitions_P] 0 = den"
proof -
  from assms(1) obtain x0 x1 x2 x3 x4 where cs: "cs = [x0, x1, x2, x3, x4]"
    by (rule list5)
  have "fold (\<lambda>q c. wrap32 (c + cs ! q)) [0..<length transitions_P] 0
        = wrap32 (x0 + x1 + x2 + x3 + x4)"
    by (simp add: cs transitions_P_def upt5 wrap32_add_left)
  also have "\<dots> = den"
    using assms(2-4) by (simp add: cs wrap32_id)
  finally show ?thesis .
qed

lemma row_sum:
  assumes "length cs = 5" and "sum_list cs = den" and "den \<noteq> 0"
  shows "sum_list (map (\<lambda>q. real_of_int (cs ! q) / real_of_int den) [0..<length transitions_P]) = 1"
proof -
  from assms(1) obtain x0 x1 x2 x3 x4 where cs: "cs = [x0, x1, x2, x3, x4]"
    by (rule list5)
  have "sum_list (map (\<lambda>q. real_of_int (cs ! q) / real_of_int den) [0..<length transitions_P])
        = real_of_int (x0 + x1 + x2 + x3 + x4) / real_of_int den"
    by (simp add: cs transitions_P_def upt5 add_divide_distrib)
  also have "\<dots> = 1"
    using assms(2,3) by (simp add: cs)
  finally show ?thesis .
qed

lemma dice_total_le_5: "(na, nd) \<in> set dicetuples_T \<Longrightarrow> nat (na + nd) \<le> 5"
  by (auto simp: dicetuples_T_def)

lemma prob_rows_ok:
  assumes "2 \<le> S" and "S ^ 5 \<le> 2147483647"
  shows "set ts \<subseteq> set dicetuples_T \<Longrightarrow>
    \<exists>rows. prob_rows transitions_P ts S tbl = Some (tbl @ rows) \<and> length rows = length ts
       \<and> (\<forall>r\<in>set rows. length r = 5 \<and> sum_list r = 1)"
proof (induction ts arbitrary: tbl)
  case Nil
  then show ?case by simp
next
  case (Cons t ts)
  obtain na nd where t: "t = (na, nd)" by (cases t)
  obtain cs den where c: "calc_transitions transitions_P [] na nd S = (cs, den)"
    by (cases "calc_transitions transitions_P [] na nd S")
  from Cons.prems t have mem: "(na, nd) \<in> set dicetuples_T" by simp
  let ?n = "nat S ^ nat (na + nd)"
  have le5: "S ^ nat (na + nd) \<le> S ^ 5"
    using dice_total_le_5 [OF mem] assms(1) by (intro power_increasing) simp_all
  have "int ?n = S ^ nat (na + nd)"
    using assms(1) by simp
  with le5 assms(2) have bound: "int ?n \<le> 2147483647"
    by linarith
  have tl: "tallied ?n (cs, den)"
    using calc_transitions_tallied [OF assms(1) mem, of "[]"] c by simp
  from tallied_exact [OF tl bound]
  have den: "den = int ?n" and len: "length cs = 5" and sum: "sum_list cs = den"
    by simp_all
  have pos: "0 < den" using den assms(1) by simp
  let ?row = "map (\<lambda>q. real_of_int (cs ! q) / real_of_int den) [0..<length transitions_P]"
  have chk: "fold (\<lambda>q c. wrap32 (c + cs ! q)) [0..<length transitions_P] 0 = den"
    using row_check [OF len sum] pos bound den by simp
  have rs: "sum_list ?row = 1"
    using row_sum [OF len sum] pos by simp
  have rl: "length ?row = 5" by (simp add: transitions_P_def)
  from Cons.prems have "set ts \<subseteq> set dicetuples_T" by simp
  from Cons.IH [OF this, of "tbl @ [?row]"] obtain rows where
    rows: "prob_rows transitions_P ts S (tbl @ [?row]) = Some ((tbl @ [?row]) @ rows)"
      "length rows = length ts" "\<forall>r\<in>set rows. length r = 5 \<and> sum_list r = 1"
    by blast
  have "prob_rows transitions_P (t # ts) S tbl = Some (tbl @ (?row # rows))"
    using rows(1) chk pos by (simp add: t c)
  moreover have "length (?row # rows) = length (t # ts)" using rows(2) by simp
  moreover have "\<forall>r\<in>set (?row # rows). length r = 5 \<and> sum_list r = 1"
    using rows(3) rs rl by simp
  ultimately show ?case by blast
qed

text \<open>
  Claim C1, as the code has it.  For a die with \<open>S \<ge> 2\<close> faces and each of the six
  dice configurations \<open>(na, nd)\<close>, as long as \<open>S ^ (na + nd)\<close> fits the 32-bit
  \<open>int\<close> in which the enumerator counts, \<open>calc_transitions\<close> returns the denominator
  \<open>S ^ (na + nd)\<close> and leaves five non-negative counts that add up to it; and when
  \<open>S ^ 5\<close> fits (that is, \<open>S \<le> 73\<close>), \<open>create_prob_table\<close> succeeds and every row of
  its table sums to exactly 1.
\<close>

theorem calc_transitions_counts:
  assumes "2 \<le> S" and "(na, nd) \<in> set dicetuples_T"
    and "S ^ nat (na + nd) \<le> 2147483647"
    and "calc_transitions transitions_P counts0 na nd S = (counts, denom)"
  shows "denom = S ^ nat (na + nd) \<and> length counts = 5 \<and> (\<forall>c\<in>set counts. 0 \<le> c)
    \<and> sum_list counts = denom
    \<and> (S ^ 5 \<le> 2147483647 \<longrightarrow>
         (\<exists>probstable. create_prob_table S = Some (dicetuples_T, transitions_P, probstable)
            \<and> length probstable = 6 \<and> (\<forall>row\<in>set probstable. sum_list row = 1)))"
proof -
  let ?n = "nat S ^ nat (na + nd)"
  have bound: "int ?n \<le> 2147483647" using assms(1,3) by simp
  have tl: "tallied ?n (counts, denom)"
    using calc_transitions_tallied [OF assms(1,2), of counts0] assms(4) by simp
  from tallied_exact [OF tl bound] assms(1)
  have first: "denom = S ^ nat (na + nd) \<and> length counts = 5 \<and> (\<forall>c\<in>set counts. 0 \<le> c)
    \<and> sum_list counts = denom"
    by simp
  have second: "\<exists>probstable. create_prob_table S = Some (dicetuples_T, transitions_P, probstable)
            \<and> length probstable = 6 \<and> (\<forall>row\<in>set probstable. sum_list row = 1)"
    if "S ^ 5 \<le> 2147483647"
  proof -
    from prob_rows_ok [OF assms(1) that, of dicetuples_T "[]"] obtain rows where
      "prob_rows transitions_P dicetuples_T S [] = Some rows" "length rows = length dicetuples_T"
      "\<forall>r\<in>set rows. length r = 5 \<and> sum_list r = 1"
      by auto
    then show ?thesis
      by (simp add: create_prob_table_def dicetuples_T_def)
  qed
  from first second show ?thesis by blast
qed

theorem calc_transitions_counts_witness:
  "snd (calc_transitions transitions_P [] 3 2 6) = 7776
   \<and> sum_list (fst (calc_transitions transitions_P [] 3 2 6)) = 7776
   \<and> (\<exists>probstable. create_prob_table 6 = Some (dicetuples_T, transitions_P, probstable)
            \<and> length probstable = 6 \<and> (\<forall>row\<in>set probstable. sum_list row = 1))"
proof -
  obtain counts denom where c: "calc_transitions transitions_P [] 3 2 6 = (counts, denom)"
    by (cases "calc_transitions transitions_P [] 3 2 6")
  have h1: "(2::int) \<le> 6" by simp
  have h2: "(3, 2) \<in> set dicetuples_T" by (simp add: dicetuples_T_def)
  have h3: "(6::int) ^ nat (3 + 2) \<le> 2147483647" by simp
  from calc_transitions_counts [OF h1 h2 h3 c] show ?thesis
    by (simp add: c)
qed

text \<open>
  Without the bound the claim fails: with 74 faces the \<open>(3,2)\<close> branch runs through
  \<open>74 ^ 5 = 2219006624\<close> tuples, more than the largest \<open>int\<close>, and the returned total
  has wrapped around.
\<close>

theorem calc_transitions_overflow_counterexample:
  "snd (calc_transitions transitions_P [] 3 2 74) \<noteq> 74 ^ nat (3 + 2)"
proof -
  have h2: "(3, 2) \<in> set dicetuples_T" by (simp add: dicetuples_T_def)
  have "tallied (nat 74 ^ nat (3 + 2)) (calc_transitions transitions_P [] 3 2 74)"
    by (rule calc_transitions_tallied [OF _ h2]) simp
  then have "snd (calc_transitions transitions_P [] 3 2 74) = wrap32 (int (nat 74 ^ nat (3 + 2)))"
    by (simp add: tallied_def)
  also have "\<dots> = - 2075960672"
    by (simp add: wrap32_def)
  finally show ?thesis by simp
qed

section \<open>The specialised branches against the generic round\<close>

lemma sort_desc_1: "sort_desc [i] = [i]"
  by (simp add: sort_desc_def)

lemma sort_desc_2:
  "sort_desc [p, q] = [if p > q then p else q, if p < q then p else q]"
  by (simp add: sort_desc_def)

lemma sort_desc_3:
  "sort_desc [i, j, k] =
     [if k > (if i > j then i else j) then k else (if i > j then i else j),
      sort_three i j k ! 1,
      if k < (if i < j then i else j) then k else (if i < j then i else j)]"
  by (simp add: sort_desc_def sort_three_def)

lemma sort_desc_2_ends:
  "sort_desc [p, q] ! 0 = max p q" "sort_desc [p, q] ! 1 = min p q"
  by (simp_all add: sort_desc_def max_def min_def)

lemma sort_desc_3_ends:
  "sort_desc [i, j, k] ! 0 = max i (max j k)" "sort_desc [i, j, k] ! 1 = sort [i, j, k] ! 1"
  by (simp_all add: sort_desc_def max_def)

lemma round_single:
  assumes "(if na > nd then nd else na) = 1"
  shows "battle_round na nd as ds (0, 0)
    = (if sort_desc as ! 0 > sort_desc ds ! 0 then (0, -1) else (-1, 0))"
  using assms by (simp add: battle_round_def Let_def compare_step_def)

lemma round_double:
  assumes "(if na > nd then nd else na) = 2"
  shows "battle_round na nd as ds (0, 0)
    = (if sort_desc as ! 0 > sort_desc ds ! 0
       then (if sort_desc as ! 1 > sort_desc ds ! 1 then (0, -2) else (-1, -1))
       else (if sort_desc as ! 1 > sort_desc ds ! 1 then (-1, -1) else (-2, 0)))"
proof -
  have "[0..<nat 2] = [0, 1]" by (simp add: upt_rec)
  with assms show ?thesis
    by (simp add: battle_round_def Let_def compare_step_def)
qed

lemma round_in_P:
  assumes "(na, nd) \<in> set dicetuples_T"
  shows "battle_round na nd as ds (0, 0) \<in> set transitions_P"
proof -
  from assms consider "(if na > nd then nd else na) = 1" | "(if na > nd then nd else na) = 2"
    by (auto simp: dicetuples_T_def)
  then show ?thesis
  proof cases
    case 1
    from round_single [OF this] show ?thesis by (simp add: transitions_P_def)
  next
    case 2
    from round_double [OF this] show ?thesis by (simp add: transitions_P_def)
  qed
qed

lemma body_single_rule:
  "body_single M amax p
    = tally_delta M (if amax > p then (0, -1) else (-1, 0))"
  by (rule ext) (simp add: body_single_def when_do_def tally_delta_def)

lemma body_12_rule:
  "body_12 M i pqmax
    = tally_delta M (if i > pqmax then (0, -1) else (-1, 0))"
  by (rule ext) (simp add: body_12_def when_do_def tally_delta_def)

lemma body_double_rule:
  "body_double M hi lo pqmax pqmin
    = tally_delta M (if hi > pqmax
       then (if lo > pqmin then (0, -2) else (-1, -1))
       else (if lo > pqmin then (-1, -1) else (-2, 0)))"
  by (rule ext) (simp add: body_double_def when_do_def tally_delta_def)

lemma index_map_distinct:
  assumes "distinct order" and "i < length order"
  shows "index_map order (order ! i) = Some i"
proof -
  let ?f = "\<lambda>i m. m(order ! i \<mapsto> i)"
  have "fold ?f [0..<n] Map.empty (order ! i) = (if i < n then Some i else None)"
    if "n \<le> length order" for n
    using that
  proof (induction n)
    case 0
    show ?case by simp
  next
    case (Suc n)
    then have n: "n < length order" by simp
    from assms n have eq: "order ! i = order ! n \<longleftrightarrow> i = n"
      by (simp add: nth_eq_iff_index_eq)
    from Suc.prems have "n \<le> length order" by simp
    from Suc.IH [OF this]
    have IH: "fold ?f [0..<n] Map.empty (order ! i) = (if i < n then Some i else None)" .
    have "fold ?f [0..<Suc n] Map.empty (order ! i)
        = ((fold ?f [0..<n] Map.empty)(order ! n \<mapsto> n)) (order ! i)"
      by simp
    also have "\<dots> = (if i = n then Some n else fold ?f [0..<n] Map.empty (order ! i))"
      by (simp only: fun_upd_apply eq)
    also have "\<dots> = (if i < Suc n then Some i else None)"
      by (simp only: IH) auto
    finally show ?case .
  qed
  from this [of "length order"] assms(2) show ?thesis
    by (simp add: index_map_def)
qed

lemma tally_delta_count:
  assumes "distinct order" and "delta \<in> set order"
  shows "tally_delta (index_map order) delta = count_outcome order delta"
proof (rule ext)
  fix st :: tally
  obtain cs t where st: "st = (cs, t)" by (cases st)
  from assms(2) obtain i where i: "i < length order" "order ! i = delta"
    by (auto simp: in_set_conv_nth)
  from index_map_distinct [OF assms(1) i(1)] i(2)
  have look: "lookup0 (index_map order) delta = i"
    by (simp add: lookup0_def)
  have pos: "(n < length order \<and> order ! n = delta) \<longleftrightarrow> n = i" for n
    using assms(1) i by (auto simp: nth_eq_iff_index_eq)
  have "cs[i := wrap32 (cs ! i + 1)]
      = map (\<lambda>n. if n = i then wrap32 (cs ! n + 1) else cs ! n) [0..<length cs]"
    by (rule nth_equalityI) (auto simp: nth_list_update)
  then show "tally_delta (index_map order) delta st = count_outcome order delta st"
    by (simp add: tally_delta_def tick_def bump_def count_outcome_def st look pos)
qed

lemma round_count:
  assumes "distinct order" and "set transitions_P \<subseteq> set order" and "(na, nd) \<in> set dicetuples_T"
  shows "tally_delta (index_map order) (battle_round na nd as ds (0, 0))
    = count_outcome order (battle_round na nd as ds (0, 0))"
  using tally_delta_count [OF assms(1)] round_in_P [OF assms(3)] assms(2) by blast

lemma fold_concat_list: "fold f (concat xss) = fold (fold f) xss"
  by (induction xss) simp_all

lemma fold_rolls_Suc:
  "fold F (rolls (Suc n) S) = fold (\<lambda>x. fold (\<lambda>r. F (x # r)) (rolls n S)) [1..S]"
  by (simp add: fold_concat_list fold_map comp_def)

lemma fold_rolls_1: "fold F (rolls (nat 1) S) = fold (\<lambda>i. F [i]) [1..S]"
proof -
  have "nat 1 = Suc 0" by simp
  then show ?thesis by (simp only: fold_rolls_Suc) simp
qed

lemma fold_rolls_2:
  "fold F (rolls (nat 2) S) = fold (\<lambda>i. fold (\<lambda>j. F [i, j]) [1..S]) [1..S]"
proof -
  have "nat 2 = Suc (Suc 0)" by simp
  then show ?thesis by (simp only: fold_rolls_Suc) simp
qed

lemma fold_rolls_3:
  "fold F (rolls (nat 3) S)
    = fold (\<lambda>i. fold (\<lambda>j. fold (\<lambda>k. F [i, j, k]) [1..S]) [1..S]) [1..S]"
proof -
  have "nat 3 = Suc (Suc (Suc 0))" by simp
  then show ?thesis by (simp only: fold_rolls_Suc) simp
qed

lemma loop_k32_fold:
  "loop_k32 M Ps Qs i j (if i > j then i else j) (if i < j then i else j) ks st
    = fold (\<lambda>k. loop_pq M Ps Qs (sort_desc [i, j, k] ! 0) (sort_desc [i, j, k] ! 1)) ks st"
proof (induction ks arbitrary: st)
  case Nil
  then show ?case by simp
next
  case (Cons k ks)
  let ?max = "if k > (if i > j then i else j) then k else (if i > j then i else j)"
  let ?min = "if k < (if i < j then i else j) then k else (if i < j then i else j)"
  have nb: "(sort_three i j k ! 0 \<noteq> ?min \<or> sort_three i j k ! 2 \<noteq> ?max) = False"
    by (simp only: sort_three_ends) simp
  have hi: "sort_desc [i, j, k] ! 0 = ?max"
    by (simp only: sort_desc_3 nth_Cons_0)
  have mid: "sort_desc [i, j, k] ! 1 = sort_three i j k ! 1"
    by (simp only: sort_desc_3) simp
  show ?case
    by (simp only: loop_k32.simps Let_def nb if_False Cons.IH fold_simps hi mid)
qed

lemma loop_k32_fold':
  "loop_k32 M Ps Qs i j (if i > j then i else j) (if i < j then i else j) ks
    = fold (\<lambda>k. loop_pq M Ps Qs (sort_desc [i, j, k] ! 0) (sort_desc [i, j, k] ! 1)) ks"
  by (rule ext) (rule loop_k32_fold)

lemma loop_pq_fold:
  "loop_pq M Ps Qs hi lo
    = fold (\<lambda>p. fold (\<lambda>q. body_double M hi lo (if p > q then p else q)
        (if p < q then p else q)) Qs) Ps"
  by (rule ext) (simp add: loop_pq_def Let_def)

lemma loop_pq_rule:
  "loop_pq M Ps Qs hi lo
    = fold (\<lambda>p. fold (\<lambda>q. body_double M hi lo (sort_desc [p, q] ! 0) (sort_desc [p, q] ! 1))
        Qs) Ps"
  by (rule ext) (simp add: loop_pq_def Let_def sort_desc_2)

text \<open>One tuple: every counter of the loop nest takes a single value.\<close>

lemma branch_11_tuple:
  "branch_11 M [i] [p] = tally_delta M (battle_round 1 1 [i] [p] (0, 0))"
  by (rule ext) (simp add: branch_11_def round_single sort_desc_1 body_single_rule)

lemma branch_21_tuple:
  "branch_21 M [i] [j] [p] = tally_delta M (battle_round 2 1 [i, j] [p] (0, 0))"
  by (rule ext)
    (simp add: branch_21_def round_single sort_desc_1 sort_desc_2 body_single_rule Let_def)

lemma branch_31_tuple:
  "branch_31 M [i] [j] [k] [p] = tally_delta M (battle_round 3 1 [i, j, k] [p] (0, 0))"
  by (rule ext)
    (simp add: branch_31_def round_single sort_desc_1 sort_desc_3 body_single_rule Let_def)

lemma branch_12_tuple:
  "branch_12 M [i] [p] [q] = tally_delta M (battle_round 1 2 [i] [p, q] (0, 0))"
  by (rule ext)
    (simp add: branch_12_def round_single sort_desc_1 sort_desc_2 body_12_rule Let_def)

lemma branch_22_tuple:
  "branch_22 M [i] [j] [p] [q] = tally_delta M (battle_round 2 2 [i, j] [p, q] (0, 0))"
  by (rule ext)
    (simp add: branch_22_def loop_pq_rule round_double sort_desc_2 body_double_rule Let_def
      cong: if_cong)

lemma branch_32_tuple:
  "branch_32 M [i] [j] [k] [p] [q] = tally_delta M (battle_round 3 2 [i, j, k] [p, q] (0, 0))"
proof (rule ext)
  fix st
  have "branch_32 M [i] [j] [k] [p] [q] st
      = loop_pq M [p] [q] (sort_desc [i, j, k] ! 0) (sort_desc [i, j, k] ! 1) st"
    by (simp only: branch_32_def Let_def loop_k32_fold' fold_simps)
  also have "\<dots> = tally_delta M (battle_round 3 2 [i, j, k] [p, q] (0, 0)) st"
    by (simp only: loop_pq_rule) (simp add: round_double body_double_rule cong: if_cong)
  finally show "branch_32 M [i] [j] [k] [p] [q] st
      = tally_delta M (battle_round 3 2 [i, j, k] [p, q] (0, 0)) st" .
qed

text \<open>The loop nest goes through the tuples one after the other.\<close>

lemma branch_11_nest:
  "branch_11 M Is Ps st = fold (\<lambda>i. fold (\<lambda>p. branch_11 M [i] [p]) Ps) Is st"
proof -
  have "branch_11 M [i] [p] = body_single M i p" for i p
    by (rule ext) (simp add: branch_11_def)
  then show ?thesis by (simp add: branch_11_def)
qed

lemma branch_21_nest:
  "branch_21 M Is Js Ps st
    = fold (\<lambda>i. fold (\<lambda>j. fold (\<lambda>p. branch_21 M [i] [j] [p]) Ps) Js) Is st"
proof -
  have "branch_21 M [i] [j] [p] = body_single M (if i > j then i else j) p" for i j p
    by (rule ext) (simp add: branch_21_def Let_def)
  then show ?thesis by (simp add: branch_21_def Let_def)
qed

lemma branch_31_nest:
  "branch_31 M Is Js Ks Ps st
    = fold (\<lambda>i. fold (\<lambda>j. fold (\<lambda>k. fold (\<lambda>p. branch_31 M [i] [j] [k] [p]) Ps) Ks) Js) Is st"
proof -
  have "branch_31 M [i] [j] [k] [p]
      = body_single M (if k > (if i > j then i else j) then k else (if i > j then i else j)) p"
    for i j k p
    by (rule ext) (simp add: branch_31_def Let_def)
  then show ?thesis by (simp add: branch_31_def Let_def)
qed

lemma branch_12_nest:
  "branch_12 M Is Ps Qs st
    = fold (\<lambda>i. fold (\<lambda>p. fold (\<lambda>q. branch_12 M [i] [p] [q]) Qs) Ps) Is st"
proof -
  have "branch_12 M [i] [p] [q] = body_12 M i (if p > q then p else q)" for i p q
    by (rule ext) (simp add: branch_12_def Let_def)
  then show ?thesis by (simp add: branch_12_def Let_def)
qed

lemma branch_22_nest:
  "branch_22 M Is Js Ps Qs st
    = fold (\<lambda>i. fold (\<lambda>j. fold (\<lambda>p. fold (\<lambda>q. branch_22 M [i] [j] [p] [q]) Qs) Ps) Js) Is st"
proof -
  have "branch_22 M [i] [j] [p] [q]
      = body_double M (if i > j then i else j) (if i < j then i else j)
          (if p > q then p else q) (if p < q then p else q)" for i j p q
    by (rule ext) (simp add: branch_22_def loop_pq_fold Let_def)
  then show ?thesis by (simp add: branch_22_def loop_pq_fold Let_def)
qed

lemma branch_32_nest:
  "branch_32 M Is Js Ks Ps Qs st
    = fold (\<lambda>i. fold (\<lambda>j. fold (\<lambda>k. fold (\<lambda>p. fold (\<lambda>q.
        branch_32 M [i] [j] [k] [p] [q]) Qs) Ps) Ks) Js) Is st"
proof -
  have one: "branch_32 M [i] [j] [k] [p] [q]
      = body_double M (sort_desc [i, j, k] ! 0) (sort_desc [i, j, k] ! 1)
          (sort_desc [p, q] ! 0) (sort_desc [p, q] ! 1)" for i j k p q
    by (rule ext) (simp only: branch_32_def Let_def loop_k32_fold' loop_pq_rule fold_simps)
  show ?thesis
    by (simp only: branch_32_def Let_def loop_k32_fold' loop_pq_rule one)
qed

lemma branch_11_rule:
  "branch_11 M [1..S] [1..S] st
    = fold (\<lambda>as. fold (\<lambda>ds. tally_delta M (battle_round 1 1 as ds (0, 0))) (rolls (nat 1) S))
        (rolls (nat 1) S) st"
  by (simp only: fold_rolls_1 branch_11_nest [of M "[1..S]"] branch_11_tuple)

lemma branch_21_rule:
  "branch_21 M [1..S] [1..S] [1..S] st
    = fold (\<lambda>as. fold (\<lambda>ds. tally_delta M (battle_round 2 1 as ds (0, 0))) (rolls (nat 1) S))
        (rolls (nat 2) S) st"
  by (simp only: fold_rolls_1 fold_rolls_2 branch_21_nest [of M "[1..S]"] branch_21_tuple)

lemma branch_31_rule:
  "branch_31 M [1..S] [1..S] [1..S] [1..S] st
    = fold (\<lambda>as. fold (\<lambda>ds. tally_delta M (battle_round 3 1 as ds (0, 0))) (rolls (nat 1) S))
        (rolls (nat 3) S) st"
  by (simp only: fold_rolls_1 fold_rolls_3 branch_31_nest [of M "[1..S]"] branch_31_tuple)

lemma branch_12_rule:
  "branch_12 M [1..S] [1..S] [1..S] st
    = fold (\<lambda>as. fold (\<lambda>ds. tally_delta M (battle_round 1 2 as ds (0, 0))) (rolls (nat 2) S))
        (rolls (nat 1) S) st"
  by (simp only: fold_rolls_1 fold_rolls_2 branch_12_nest [of M "[1..S]"] branch_12_tuple)

lemma branch_22_rule:
  "branch_22 M [1..S] [1..S] [1..S] [1..S] st
    = fold (\<lambda>as. fold (\<lambda>ds. tally_delta M (battle_round 2 2 as ds (0, 0))) (rolls (nat 2) S))
        (rolls (nat 2) S) st"
  by (simp only: fold_rolls_2 branch_22_nest [of M "[1..S]"] branch_22_tuple)

lemma branch_32_rule:
  "branch_32 M [1..S] [1..S] [1..S] [1..S] [1..S] st
    = fold (\<lambda>as. fold (\<lambda>ds. tally_delta M (battle_round 3 2 as ds (0, 0))) (rolls (nat 2) S))
        (rolls (nat 3) S) st"
  by (simp only: fold_rolls_2 fold_rolls_3 branch_32_nest [of M "[1..S]"] branch_32_tuple)

lemma calc_transitions_nest:
  assumes "(na, nd) \<in> set dicetuples_T" and "2 \<le> S"
  shows "calc_transitions order counts na nd S
    = fold (\<lambda>as. fold (\<lambda>ds. tally_delta (index_map order) (battle_round na nd as ds (0, 0)))
          (rolls (nat nd) S)) (rolls (nat na) S) (replicate (length order) 0, 0)"
proof -
  from assms(1) consider "na = 1 \<and> nd = 1" | "na = 2 \<and> nd = 1" | "na = 3 \<and> nd = 1"
    | "na = 1 \<and> nd = 2" | "na = 2 \<and> nd = 2" | "na = 3 \<and> nd = 2"
    by (auto simp: dicetuples_T_def)
  then show ?thesis
  proof cases
    case 1
    with assms(2) show ?thesis
      by (simp add: calc_transitions_def branch_11_rule)
  next
    case 2
    with assms(2) show ?thesis
      by (simp add: calc_transitions_def branch_21_rule)
  next
    case 3
    with assms(2) show ?thesis
      by (simp add: calc_transitions_def branch_31_rule)
  next
    case 4
    with assms(2) show ?thesis
      by (simp add: calc_transitions_def branch_12_rule)
  next
    case 5
    with assms(2) show ?thesis
      by (simp add: calc_transitions_def branch_22_rule)
  next
    case 6
    with assms(2) show ?thesis
      by (simp add: calc_transitions_def branch_32_rule)
  qed
qed

lemma round_11: "battle_round 1 1 [i] [p] (0, 0) = (if i > p then (0, -1) else (-1, 0))"
proof -
  have "(if (1::int) > 1 then 1 else 1) = (1::int)" by simp
  from round_single [OF this] show ?thesis by (simp add: sort_desc_1)
qed

lemma round_32:
  "battle_round 3 2 [i, j, k] [p, q] (0, 0)
    = (if max i (max j k) > max p q
       then (if sort [i, j, k] ! 1 > min p q then (0, -2) else (-1, -1))
       else (if sort [i, j, k] ! 1 > min p q then (-1, -1) else (-2, 0)))"
proof -
  have "(if (3::int) > 2 then 2 else 3) = (2::int)" by simp
  from round_double [OF this, of "[i, j, k]" "[p, q]"] show ?thesis
    by (simp only: sort_desc_2_ends sort_desc_3_ends)
qed

text \<open>
  Claim C5.  For each of the six configurations \<open>(na, nd)\<close> and every joint dice tuple,
  the iteration of the specialised branch of \<open>calc_transitions\<close> at that tuple counts
  exactly the outcome delta that the round of \<open>simulate_battle\<close> produces from that tuple
  (dice sorted descending, \<open>min na nd\<close> comparisons, the attacker wins a comparison only
  with a strictly higher die, the loser of a comparison loses one unit): it adds one to
  the counter of that delta, to no other counter, and one to the total.  With one
  attacker die against one defender die the delta is \<open>(0, -1)\<close> if \<open>i > p\<close> and \<open>(-1, 0)\<close>
  otherwise; in the \<open>(3, 2)\<close> branch the maximum and the median of the attacker's three
  dice are compared with the maximum and the minimum of the defender's two dice.  Each
  branch goes through its tuples one after the other, so that the whole enumeration over
  the faces \<open>1..S\<close> is \<open>enumerate_by_rule\<close>.
\<close>

theorem enumeration_refines_rule:
  assumes "distinct order" and "set transitions_P \<subseteq> set order"
    and "(na, nd) \<in> set dicetuples_T" and "2 \<le> S"
  shows
    "branch_11 (index_map order) [i] [p] st
        = count_outcome order (battle_round 1 1 [i] [p] (0, 0)) st
    \<and> branch_21 (index_map order) [i] [j] [p] st
        = count_outcome order (battle_round 2 1 [i, j] [p] (0, 0)) st
    \<and> branch_31 (index_map order) [i] [j] [k] [p] st
        = count_outcome order (battle_round 3 1 [i, j, k] [p] (0, 0)) st
    \<and> branch_12 (index_map order) [i] [p] [q] st
        = count_outcome order (battle_round 1 2 [i] [p, q] (0, 0)) st
    \<and> branch_22 (index_map order) [i] [j] [p] [q] st
        = count_outcome order (battle_round 2 2 [i, j] [p, q] (0, 0)) st
    \<and> branch_32 (index_map order) [i] [j] [k] [p] [q] st
        = count_outcome order (battle_round 3 2 [i, j, k] [p, q] (0, 0)) st
    \<and> battle_round 1 1 [i] [p] (0, 0) = (if i > p then (0, -1) else (-1, 0))
    \<and> battle_round 3 2 [i, j, k] [p, q] (0, 0)
        = (if max i (max j k) > max p q
           then (if sort [i, j, k] ! 1 > min p q then (0, -2) else (-1, -1))
           else (if sort [i, j, k] ! 1 > min p q then (-1, -1) else (-2, 0)))
    \<and> branch_11 M Is Ps st = fold (\<lambda>i. fold (\<lambda>p. branch_11 M [i] [p]) Ps) Is st
    \<and> branch_21 M Is Js Ps st
        = fold (\<lambda>i. fold (\<lambda>j. fold (\<lambda>p. branch_21 M [i] [j] [p]) Ps) Js) Is st
    \<and> branch_31 M Is Js Ks Ps st
        = fold (\<lambda>i. fold (\<lambda>j. fold (\<lambda>k. fold (\<lambda>p.
            branch_31 M [i] [j] [k] [p]) Ps) Ks) Js) Is st
    \<and> branch_12 M Is Ps Qs st
        = fold (\<lambda>i. fold (\<lambda>p. fold (\<lambda>q. branch_12 M [i] [p] [q]) Qs) Ps) Is st
    \<and> branch_22 M Is Js Ps Qs st
        = fold (\<lambda>i. fold (\<lambda>j. fold (\<lambda>p. fold (\<lambda>q.
            branch_22 M [i] [j] [p] [q]) Qs) Ps) Js) Is st
    \<and> branch_32 M Is Js Ks Ps Qs st
        = fold (\<lambda>i. fold (\<lambda>j. fold (\<lambda>k. fold (\<lambda>p. fold (\<lambda>q.
            branch_32 M [i] [j] [k] [p] [q]) Qs) Ps) Ks) Js) Is st
    \<and> calc_transitions order counts na nd S = enumerate_by_rule order na nd S"
proof -
  have mem: "(1, 1) \<in> set dicetuples_T" "(2, 1) \<in> set dicetuples_T"
    "(3, 1) \<in> set dicetuples_T" "(1, 2) \<in> set dicetuples_T"
    "(2, 2) \<in> set dicetuples_T" "(3, 2) \<in> set dicetuples_T"
    by (simp_all add: dicetuples_T_def)
  note rc = round_count [OF assms(1,2)]
  have t11: "branch_11 (index_map order) [i] [p] st
        = count_outcome order (battle_round 1 1 [i] [p] (0, 0)) st"
    by (simp only: branch_11_tuple rc [OF mem(1)])
  have t21: "branch_21 (index_map order) [i] [j] [p] st
        = count_outcome order (battle_round 2 1 [i, j] [p] (0, 0)) st"
    by (simp only: branch_21_tuple rc [OF mem(2)])
  have t31: "branch_31 (index_map order) [i] [j] [k] [p] st
        = count_outcome order (battle_round 3 1 [i, j, k] [p] (0, 0)) st"
    by (simp only: branch_31_tuple rc [OF mem(3)])
  have t12: "branch_12 (index_map order) [i] [p] [q] st
        = count_outcome order (battle_round 1 2 [i] [p, q] (0, 0)) st"
    by (simp only: branch_12_tuple rc [OF mem(4)])
  have t22: "branch_22 (index_map order) [i] [j] [p] [q] st
        = count_outcome order (battle_round 2 2 [i, j] [p, q] (0, 0)) st"
    by (simp only: branch_22_tuple rc [OF mem(5)])
  have t32: "branch_32 (index_map order) [i] [j] [k] [p] [q] st
        = count_outcome order (battle_round 3 2 [i, j, k] [p, q] (0, 0)) st"
    by (simp only: branch_32_tuple rc [OF mem(6)])
  have whole: "calc_transitions order counts na nd S = enumerate_by_rule order na nd S"
    by (simp only: calc_transitions_nest [OF assms(3,4)] rc [OF assms(3)] enumerate_by_rule_def)
  from t11 t21 t31 t12 t22 t32 round_11 [of i p] round_32 [of i j k p q]
    branch_11_nest [of M Is Ps st] branch_21_nest [of M Is Js Ps st]
    branch_31_nest [of M Is Js Ks Ps st] branch_12_nest [of M Is Ps Qs st]
    branch_22_nest [of M Is Js Ps Qs st] branch_32_nest [of M Is Js Ks Ps Qs st] whole
  show ?thesis by (intro conjI)
qed

theorem enumeration_refines_rule_witness:
  "distinct transitions_P \<and> (3, 2) \<in> set dicetuples_T \<and> (2 :: int) \<le> 2
   \<and> branch_32 (index_map transitions_P) [6] [3] [5] [6] [4] ([0, 0, 0, 0, 0], 0)
       = ([0, 1, 0, 0, 0], 1)
   \<and> branch_11 (index_map transitions_P) [6] [6] ([0, 0, 0, 0, 0], 0)
       = ([0, 0, 1, 0, 0], 1)
   \<and> calc_transitions transitions_P [] 3 2 2 = enumerate_by_rule transitions_P 3 2 2"
proof -
  have h1: "distinct transitions_P" by (simp add: transitions_P_def)
  have h2: "set transitions_P \<subseteq> set transitions_P" by simp
  have h3: "(3, 2) \<in> set dicetuples_T" by (simp add: dicetuples_T_def)
  have h4: "(2::int) \<le> 2" by simp
  have e1: "count_outcome transitions_P (battle_round 3 2 [6, 3, 5] [6, 4] (0, 0))
      ([0, 0, 0, 0, 0], 0) = ([0, 1, 0, 0, 0], 1)"
    by code_simp
  have e2: "count_outcome transitions_P (battle_round 1 1 [6] [6] (0, 0))
      ([0, 0, 0, 0, 0], 0) = ([0, 0, 1, 0, 0], 1)"
    by code_simp
  note w = enumeration_refines_rule [OF h1 h2 h3 h4, where i = 6 and j = 3 and k = 5
      and p = 6 and q = 4 and st = "([0, 0, 0, 0, 0], 0)" and counts = "[]"
      and M = "index_map transitions_P" and Is = "[]" and Js = "[]" and Ks = "[]"
      and Ps = "[]" and Qs = "[]"]
  from w have "branch_32 (index_map transitions_P) [6] [3] [5] [6] [4] ([0, 0, 0, 0, 0], 0)
      = count_outcome transitions_P (battle_round 3 2 [6, 3, 5] [6, 4] (0, 0))
          ([0, 0, 0, 0, 0], 0)"
    by blast
  moreover from w have "branch_11 (index_map transitions_P) [6] [6] ([0, 0, 0, 0, 0], 0)
      = count_outcome transitions_P (battle_round 1 1 [6] [6] (0, 0)) ([0, 0, 0, 0, 0], 0)"
    by blast
  moreover from w
  have "calc_transitions transitions_P [] 3 2 2 = enumerate_by_rule transitions_P 3 2 2"
    by blast
  ultimately show ?thesis
    using h1 h3 h4 by (simp only: e1 e2)
qed

section \<open>The simulator terminates in a terminal state\<close>

lemma compare_step_sum:
  "fst (fold (compare_step xs ys) is (x, y)) + snd (fold (compare_step xs ys) is (x, y))
      = x + y - int (length is)"
  by (induction "is" arbitrary: x y) (auto simp: compare_step_def)

lemma compare_step_bounds:
  "fold (compare_step xs ys) is (x, y) = (x', y') \<Longrightarrow>
     x - int (length is) \<le> x' \<and> x' \<le> x \<and> y - int (length is) \<le> y' \<and> y' \<le> y"
proof (induction "is" arbitrary: x y)
  case Nil
  then show ?case by simp
next
  case (Cons i "is")
  show ?case
  proof (cases "xs ! i > ys ! i")
    case True
    then have "compare_step xs ys i (x, y) = (x, y - 1)"
      by (simp add: compare_step_def)
    with Cons.prems have "fold (compare_step xs ys) is (x, y - 1) = (x', y')"
      by simp
    from Cons.IH [OF this] show ?thesis by simp
  next
    case False
    then have "compare_step xs ys i (x, y) = (x - 1, y)"
      by (simp add: compare_step_def)
    with Cons.prems have "fold (compare_step xs ys) is (x - 1, y) = (x', y')"
      by simp
    from Cons.IH [OF this] show ?thesis by simp
  qed
qed

lemma battle_round_bounds:
  assumes "1 < a" and "0 < d"
    and "battle_round (attacker_dice a) (defender_dice d) as ds (a, d) = (a', d')"
  shows "1 \<le> a' \<and> 0 \<le> d' \<and> a' + d' < a + d"
proof -
  let ?nc = "if attacker_dice a > defender_dice d then defender_dice d else attacker_dice a"
  have nc: "1 \<le> ?nc" "?nc \<le> a - 1" "?nc \<le> d"
    using assms(1,2) by (auto simp: attacker_dice_def defender_dice_def Let_def)
  have f: "fold (compare_step (sort_desc as) (sort_desc ds)) [0..<nat ?nc] (a, d) = (a', d')"
    using assms(3) by (simp add: battle_round_def Let_def)
  from compare_step_bounds [OF f] compare_step_sum [of "sort_desc as" "sort_desc ds" "[0..<nat ?nc]" a d] f nc
  show ?thesis by simp
qed

lemma battle_loop_terminal:
  "1 \<le> a \<Longrightarrow> 0 \<le> d \<Longrightarrow> battle_loop gen pos a d = (a', d') \<Longrightarrow>
     1 \<le> a' \<and> 0 \<le> d' \<and> \<not> (1 < a' \<and> 0 < d')"
proof (induction gen pos a d rule: battle_loop.induct)
  case (1 gen pos a d)
  show ?case
  proof (cases "1 < a \<and> 0 < d")
    case True
    let ?na = "attacker_dice a" and ?nd = "defender_dice d"
    let ?as = "map gen [pos..<pos + nat ?na]"
    let ?ds = "map gen [pos + nat ?na..<pos + nat ?na + nat ?nd]"
    obtain a2 d2 where r: "battle_round ?na ?nd ?as ?ds (a, d) = (a2, d2)"
      by (cases "battle_round ?na ?nd ?as ?ds (a, d)")
    from battle_round_bounds [OF _ _ r] True have b: "1 \<le> a2" "0 \<le> d2" by simp_all
    have "battle_loop gen (pos + nat ?na + nat ?nd) a2 d2 = (a', d')"
      using "1.prems"(3) True r by (subst (asm) battle_loop.simps) (simp add: Let_def)
    from "1.IH" [OF True refl refl refl refl r [symmetric] b this] show ?thesis .
  next
    case False
    with "1.prems" show ?thesis by (subst (asm) battle_loop.simps) auto
  qed
qed

text \<open>
  Claim C9.  \<open>battle_loop\<close> is the \<open>while\<close> loop of \<open>simulate_battle\<close>; it is a total
  function (its termination proof uses the measure \<open>a + d\<close>), so the simulator
  terminates for every sequence of die values.  A round entered with \<open>a > 1\<close> and
  \<open>d > 0\<close> makes at least one comparison, and a comparison takes one unit from exactly
  one side.  Started from \<open>A \<ge> 2\<close> and \<open>D \<ge> 1\<close> the loop ends in a state with \<open>d = 0\<close>
  or \<open>a \<le> 1\<close>, never with \<open>a > 1\<close> and \<open>d > 0\<close>, and \<open>simulate_battle\<close> returns 1
  exactly when \<open>d = 0\<close> there.
\<close>

theorem simulate_battle_terminal:
  assumes "2 \<le> A" and "1 \<le> D" and "battle_loop gen 0 A D = (a, d)"
  shows "(d = 0 \<or> a \<le> 1) \<and> \<not> (1 < a \<and> 0 < d)
    \<and> (simulate_battle A D S gen = 1 \<longleftrightarrow> d = 0)
    \<and> (simulate_battle A D S gen = 1 \<or> simulate_battle A D S gen = 0)
    \<and> (1 < x \<and> 0 < y \<longrightarrow>
          1 \<le> (if attacker_dice x > defender_dice y then defender_dice y else attacker_dice x)
          \<and> fst (battle_round (attacker_dice x) (defender_dice y) as ds (x, y))
              + snd (battle_round (attacker_dice x) (defender_dice y) as ds (x, y)) < x + y)
    \<and> (compare_step a_dice d_dice i (x, y) = (x, y - 1)
          \<or> compare_step a_dice d_dice i (x, y) = (x - 1, y))"
proof -
  from assms have "1 \<le> A" "0 \<le> D" by simp_all
  from battle_loop_terminal [OF this assms(3)]
  have t: "1 \<le> a" "0 \<le> d" "\<not> (1 < a \<and> 0 < d)" by simp_all
  then have "d = 0 \<or> a \<le> 1" by linarith
  moreover have "simulate_battle A D S gen = 1 \<longleftrightarrow> d = 0"
    by (simp add: simulate_battle_def assms(3))
  moreover have "simulate_battle A D S gen = 1 \<or> simulate_battle A D S gen = 0"
    by (simp add: simulate_battle_def assms(3))
  moreover have "1 \<le> (if attacker_dice x > defender_dice y then defender_dice y else attacker_dice x)
          \<and> fst (battle_round (attacker_dice x) (defender_dice y) as ds (x, y))
              + snd (battle_round (attacker_dice x) (defender_dice y) as ds (x, y)) < x + y"
    if "1 < x \<and> 0 < y"
  proof -
    obtain x' y' where r: "battle_round (attacker_dice x) (defender_dice y) as ds (x, y) = (x', y')"
      by (cases "battle_round (attacker_dice x) (defender_dice y) as ds (x, y)")
    from that have "1 < x" "0 < y" by simp_all
    from battle_round_bounds [OF this r] have "x' + y' < x + y" by simp
    moreover have "1 \<le> (if attacker_dice x > defender_dice y then defender_dice y
        else attacker_dice x)"
      using that by (auto simp: attacker_dice_def defender_dice_def Let_def)
    ultimately show ?thesis by (simp add: r)
  qed
  moreover have "compare_step a_dice d_dice i (x, y) = (x, y - 1)
          \<or> compare_step a_dice d_dice i (x, y) = (x - 1, y)"
    by (simp add: compare_step_def)
  ultimately show ?thesis using t(3) by blast
qed

theorem simulate_battle_terminal_witness:
  "(2::int) \<le> 2 \<and> (1::int) \<le> 1 \<and> battle_loop (\<lambda>n. 1) 0 2 1 = (1, 1)
    \<and> simulate_battle 2 1 6 (\<lambda>n. 1) \<noteq> 1"
proof -
  have h1: "(2::int) \<le> 2" and h2: "(1::int) \<le> 1" by simp_all
  have r: "battle_round 1 1 [1] [1] (2, 1) = (1, 1)"
    by (simp add: battle_round_def sort_desc_def compare_step_def)
  have "battle_loop (\<lambda>n. 1) 0 2 1 = battle_loop (\<lambda>n. 1) (Suc (Suc 0)) 1 1"
    by (subst battle_loop.simps) (simp add: attacker_dice_def defender_dice_def r)
  also have "\<dots> = (1, 1)"
    by (subst battle_loop.simps) simp
  finally have h3: "battle_loop (\<lambda>n. 1) 0 2 1 = (1, 1)" .
  from simulate_battle_terminal [OF h1 h2 h3, of 6] h3 show ?thesis by simp
qed


section \<open>The transition table of the program\<close>

text \<open>The six enumerations for the die of \<open>main\<close>, evaluated.\<close>

lemma counts_6_11: "calc_transitions transitions_P [] 1 1 6 = ([0, 0, 21, 15, 0], 36)"
  by code_simp

lemma counts_6_21: "calc_transitions transitions_P [] 2 1 6 = ([0, 0, 91, 125, 0], 216)"
  by code_simp

lemma counts_6_31: "calc_transitions transitions_P [] 3 1 6 = ([0, 0, 441, 855, 0], 1296)"
  by code_simp

lemma counts_6_12: "calc_transitions transitions_P [] 1 2 6 = ([0, 0, 161, 55, 0], 216)"
  by code_simp

lemma counts_6_22: "calc_transitions transitions_P [] 2 2 6 = ([581, 420, 0, 0, 295], 1296)"
  by code_simp

lemma counts_6_32: "calc_transitions transitions_P [] 3 2 6 = ([2275, 2611, 0, 0, 2890], 7776)"
  by code_simp

lemma length_transitions_P: "length transitions_P = 5"
  by (simp add: transitions_P_def)

lemma create_prob_table_6:
  "create_prob_table 6 = Some (dicetuples_T, transitions_P, table_6)"
  by (simp add: create_prob_table_def dicetuples_T_def length_transitions_P upt5 wrap32_def
      counts_6_11 counts_6_21 counts_6_31 counts_6_12 counts_6_22 counts_6_32 table_6_def)

section \<open>The grid and its abstraction\<close>

lemma upt6: "[0..<6] = [0, 1, 2, 3, 4, 5]"
  by code_simp

lemma index_map_T:
  "index_map dicetuples_T (1, 1) = Some 0"
  "index_map dicetuples_T (2, 1) = Some 1"
  "index_map dicetuples_T (3, 1) = Some 2"
  "index_map dicetuples_T (1, 2) = Some 3"
  "index_map dicetuples_T (2, 2) = Some 4"
  "index_map dicetuples_T (3, 2) = Some 5"
  "index_map dicetuples_T (0, 1) = None"
  "index_map dicetuples_T (0, 2) = None"
  by (simp_all add: index_map_def dicetuples_T_def upt6)

lemma config_index_cases:
  "a = 1 \<Longrightarrow> 1 \<le> d \<Longrightarrow> config_index a d = 0"
  "a = 2 \<Longrightarrow> d = 1 \<Longrightarrow> config_index a d = 0"
  "a = 3 \<Longrightarrow> d = 1 \<Longrightarrow> config_index a d = 1"
  "4 \<le> a \<Longrightarrow> d = 1 \<Longrightarrow> config_index a d = 2"
  "a = 2 \<Longrightarrow> 2 \<le> d \<Longrightarrow> config_index a d = 3"
  "a = 3 \<Longrightarrow> 2 \<le> d \<Longrightarrow> config_index a d = 4"
  "4 \<le> a \<Longrightarrow> 2 \<le> d \<Longrightarrow> config_index a d = 5"
proof -
  show "a = 1 \<Longrightarrow> 1 \<le> d \<Longrightarrow> config_index a d = 0"
    by (cases "d = 1")
      (simp_all add: config_index_def attacker_dice_def defender_dice_def lookup0_def
        index_map_T Let_def)
qed (simp_all add: config_index_def attacker_dice_def defender_dice_def lookup0_def
    index_map_T Let_def)

lemma row_cases:
  assumes "1 \<le> a" and "1 \<le> d"
  obtains "a = 1" "table_6 ! config_index a d = [0, 0, 21 / 36, 15 / 36, 0]"
  | "a = 2" "d = 1" "table_6 ! config_index a d = [0, 0, 21 / 36, 15 / 36, 0]"
  | "a = 3" "d = 1" "table_6 ! config_index a d = [0, 0, 91 / 216, 125 / 216, 0]"
  | "4 \<le> a" "d = 1" "table_6 ! config_index a d = [0, 0, 441 / 1296, 855 / 1296, 0]"
  | "a = 2" "2 \<le> d" "table_6 ! config_index a d = [0, 0, 161 / 216, 55 / 216, 0]"
  | "a = 3" "2 \<le> d" "table_6 ! config_index a d = [581 / 1296, 420 / 1296, 0, 0, 295 / 1296]"
  | "4 \<le> a" "2 \<le> d"
    "table_6 ! config_index a d = [2275 / 7776, 2611 / 7776, 0, 0, 2890 / 7776]"
proof -
  from assms consider "a = 1" | "a = 2 \<and> d = 1" | "a = 3 \<and> d = 1" | "4 \<le> a \<and> d = 1"
    | "a = 2 \<and> 2 \<le> d" | "a = 3 \<and> 2 \<le> d" | "4 \<le> a \<and> 2 \<le> d"
    by linarith
  then show ?thesis
    using that assms by cases (simp_all add: config_index_cases table_6_def)
qed

lemma targets_in_range:
  assumes "1 \<le> a" and "a \<le> A" and "1 \<le> d" and "d \<le> D" and "i \<in> set [0..<5]"
    and "table_6 ! config_index a d ! i \<noteq> 0"
  shows "0 \<le> a + fst (transitions_P ! i) \<and> a + fst (transitions_P ! i) \<le> A
    \<and> 0 \<le> d + snd (transitions_P ! i) \<and> d + snd (transitions_P ! i) \<le> D"
proof -
  from assms(5) have i: "i = 0 \<or> i = 1 \<or> i = 2 \<or> i = 3 \<or> i = 4"
    by (auto simp: upt5)
  from assms(1,3) show ?thesis
  proof (cases rule: row_cases)
    case 1
    with i assms show ?thesis by (auto simp: transitions_P_def)
  next
    case 2
    with i assms show ?thesis by (auto simp: transitions_P_def)
  next
    case 3
    with i assms show ?thesis by (auto simp: transitions_P_def)
  next
    case 4
    with i assms show ?thesis by (auto simp: transitions_P_def)
  next
    case 5
    with i assms show ?thesis by (auto simp: transitions_P_def)
  next
    case 6
    with i assms show ?thesis by (auto simp: transitions_P_def)
  next
    case 7
    with i assms show ?thesis by (auto simp: transitions_P_def)
  qed
qed


lemma index_range:
  fixes a d A D :: int
  assumes "0 \<le> a" and "a \<le> A" and "0 \<le> d" and "d \<le> D"
  shows "0 \<le> (1 + A) * d + a" and "(1 + A) * d + a < (1 + A) * (1 + D)"
proof -
  have "0 \<le> 1 + A"
    using assms(1,2) by linarith
  then have "0 \<le> (1 + A) * d"
    using assms(3) by simp
  then show "0 \<le> (1 + A) * d + a"
    using assms(1) by simp
  have "(1 + A) * d + a < (1 + A) * d + (1 + A)"
    using assms(2) by simp
  also have "\<dots> = (1 + A) * (1 + d)"
    by (simp add: algebra_simps)
  also have "\<dots> \<le> (1 + A) * (1 + D)"
  proof (rule mult_left_mono)
    show "1 + d \<le> 1 + D" using assms(4) by simp
    show "0 \<le> 1 + A" using assms(1,2) by linarith
  qed
  finally show "(1 + A) * d + a < (1 + A) * (1 + D)" .
qed

lemma linear_index_exact:
  assumes "0 \<le> a" and "a \<le> A" and "0 \<le> d" and "d \<le> D"
    and "(1 + A) * (1 + D) \<le> 2147483647"
  shows "linear_index a A d D = (1 + A) * d + a"
proof -
  have top: "(1 + A) * d + a < 2147483648"
    using index_range(2) [OF assms(1-4)] assms(5) by simp
  have pos: "0 \<le> 1 + A"
    using assms(1,2) by linarith
  then have nn: "0 \<le> (1 + A) * d"
    using assms(3) by simp
  have "(1 + A) * 1 \<le> (1 + A) * (1 + D)"
    using pos assms(3,4) by (intro mult_left_mono) simp_all
  with assms(5) have "1 + A \<le> 2147483647"
    by simp
  with pos have w1: "wrap32 (1 + A) = 1 + A"
    by (simp add: wrap32_id)
  have "(1 + A) * d \<le> 2147483647"
    using top assms(1) by simp
  with nn have w2: "wrap32 ((1 + A) * d) = (1 + A) * d"
    by (simp add: wrap32_id)
  have "0 \<le> (1 + A) * d + a" "(1 + A) * d + a \<le> 2147483647"
    using nn top assms(1) by simp_all
  then have w3: "wrap32 ((1 + A) * d + a) = (1 + A) * d + a"
    by (simp add: wrap32_id)
  show ?thesis
    by (simp only: linear_index_def w1 w2 w3)
qed

lemma index_inj:
  fixes a a' d d' A :: int
  assumes "0 \<le> a" and "a \<le> A" and "0 \<le> a'" and "a' \<le> A"
    and "(1 + A) * d + a = (1 + A) * d' + a'"
  shows "a = a' \<and> d = d'"
proof -
  have "((1 + A) * d + a) mod (1 + A) = a" "((1 + A) * d' + a') mod (1 + A) = a'"
    using assms(1-4) by simp_all
  with assms(5) have "a = a'" by simp
  moreover from this assms(5) assms(1,2) have "d = d'" by simp
  ultimately show ?thesis by simp
qed

lemma grid_read:
  assumes "grid_is A D f P" and "0 \<le> a" and "a \<le> A" and "0 \<le> d" and "d \<le> D"
  shows "read_at P (linear_index a A d D) = Inr (f a d)"
proof -
  from assms(1) have g: "(1 + A) * (1 + D) \<le> 2147483647" "length P = nat ((1 + A) * (1 + D))"
    "P ! nat ((1 + A) * d + a) = f a d"
    using assms(2-5) by (simp_all add: grid_is_def)
  from index_range [OF assms(2-5)] g(2) show ?thesis
    by (simp add: read_at_def linear_index_exact [OF assms(2-5) g(1)] g(3))
qed

lemma grid_write:
  assumes "grid_is A D f P" and "0 \<le> a" and "a \<le> A" and "0 \<le> d" and "d \<le> D"
  shows "write_at P (linear_index a A d D) v = Inr (P[nat ((1 + A) * d + a) := v])"
    and "grid_is A D (\<lambda>x y. if x = a \<and> y = d then v else f x y) (P[nat ((1 + A) * d + a) := v])"
proof -
  from assms(1) have g: "0 \<le> A" "0 \<le> D" "(1 + A) * (1 + D) \<le> 2147483647"
    "length P = nat ((1 + A) * (1 + D))"
    and cells: "\<And>x y. 0 \<le> x \<Longrightarrow> x \<le> A \<Longrightarrow> 0 \<le> y \<Longrightarrow> y \<le> D
       \<Longrightarrow> P ! nat ((1 + A) * y + x) = f x y"
    by (simp_all add: grid_is_def)
  note r = index_range [OF assms(2-5)]
  from r g(4) show "write_at P (linear_index a A d D) v = Inr (P[nat ((1 + A) * d + a) := v])"
    by (simp add: write_at_def linear_index_exact [OF assms(2-5) g(3)])
  have "P[nat ((1 + A) * d + a) := v] ! nat ((1 + A) * y + x)
      = (if x = a \<and> y = d then v else f x y)"
    if xy: "0 \<le> x" "x \<le> A" "0 \<le> y" "y \<le> D" for x y
  proof (cases "x = a \<and> y = d")
    case True
    with r g(4) show ?thesis by simp
  next
    case False
    have "(1 + A) * y + x \<noteq> (1 + A) * d + a"
      using index_inj [OF xy(1,2) assms(2,3), of y d] False by blast
    moreover have "0 \<le> (1 + A) * y + x"
      using index_range(1) [OF xy] .
    ultimately have "nat ((1 + A) * y + x) \<noteq> nat ((1 + A) * d + a)"
      using r(1) by simp
    then have "P[nat ((1 + A) * d + a) := v] ! nat ((1 + A) * y + x) = P ! nat ((1 + A) * y + x)"
      by simp
    also have "\<dots> = f x y" by (rule cells [OF xy])
    also have "\<dots> = (if x = a \<and> y = d then v else f x y)" by (simp only: False if_False)
    finally show ?thesis .
  qed
  with g show "grid_is A D (\<lambda>x y. if x = a \<and> y = d then v else f x y)
      (P[nat ((1 + A) * d + a) := v])"
    by (simp add: grid_is_def)
qed

lemma sum_targets_sim:
  assumes "grid_is A D f P"
  shows "\<forall>i\<in>set is. probs ! i \<noteq> 0 \<longrightarrow>
        0 \<le> a + fst (transitions_P ! i) \<and> a + fst (transitions_P ! i) \<le> A
        \<and> 0 \<le> d + snd (transitions_P ! i) \<and> d + snd (transitions_P ! i) \<le> D
     \<Longrightarrow> sum_targets A D P u transitions_P probs a d is acc
        = Inr (sum_abs f u probs a d is acc)"
proof (induction "is" arbitrary: acc)
  case Nil
  then show ?case by simp
next
  case (Cons i "is")
  show ?case
  proof (cases "probs ! i = 0")
    case True
    with Cons show ?thesis by simp
  next
    case False
    with Cons.prems have
      "0 \<le> a + fst (transitions_P ! i)" "a + fst (transitions_P ! i) \<le> A"
      "0 \<le> d + snd (transitions_P ! i)" "d + snd (transitions_P ! i) \<le> D"
      by simp_all
    from grid_read [OF assms this] False Cons show ?thesis
      by (simp add: Let_def)
  qed
qed

lemma update_cell_sim:
  assumes "grid_is A D f P" and "1 \<le> a" and "a \<le> A" and "1 \<le> d" and "d \<le> D"
  shows "\<exists>P'. update_cell A D u (index_map dicetuples_T) transitions_P table_6 a d (P, n)
          = Inr (P', snd (acell u a d (f, n)))
        \<and> grid_is A D (fst (acell u a d (f, n))) P'"
proof -
  have rng: "0 \<le> a" "a \<le> A" "0 \<le> d" "d \<le> D"
    using assms by simp_all
  note rd = grid_read [OF assms(1) rng]
  show ?thesis
  proof (cases "f a d \<noteq> u")
    case True
    with rd assms(1) show ?thesis
      by (simp add: update_cell_def acell_def)
  next
    case False
    let ?probs = "table_6 ! config_index a d"
    let ?v = "sum_abs f u ?probs a d [0..<5] 0"
    have "\<forall>i\<in>set [0..<5]. ?probs ! i \<noteq> 0 \<longrightarrow>
        0 \<le> a + fst (transitions_P ! i) \<and> a + fst (transitions_P ! i) \<le> A
        \<and> 0 \<le> d + snd (transitions_P ! i) \<and> d + snd (transitions_P ! i) \<le> D"
      using targets_in_range [OF assms(2-5)] by blast
    from sum_targets_sim [OF assms(1) this]
    have st: "sum_targets A D P u transitions_P ?probs a d [0..<length transitions_P] 0 = Inr ?v"
      by (simp add: length_transitions_P)
    show ?thesis
    proof (cases "?v \<ge> 0")
      case True
      with False rd st grid_write [OF assms(1) rng, of ?v] show ?thesis
        by (simp add: update_cell_def acell_def Let_def config_index_def [symmetric])
    next
      case neg: False
      with False rd st assms(1) show ?thesis
        by (simp add: update_cell_def acell_def Let_def config_index_def [symmetric])
    qed
  qed
qed


lemma for_each_sim:
  "(\<forall>x\<in>set xs. \<forall>s t. R t s \<longrightarrow> (\<exists>s'. body x s = Inr s' \<and> R (g x t) s')) \<Longrightarrow> R t s
     \<Longrightarrow> \<exists>s'. for_each xs body s = Inr s' \<and> R (fold g xs t) s'"
proof (induction xs arbitrary: s t)
  case Nil
  then show ?case by simp
next
  case (Cons x xs)
  from Cons.prems obtain s1 where s1: "body x s = Inr s1" "R (g x t) s1"
    by (meson list.set_intros(1))
  from Cons.prems(1) have "\<forall>x\<in>set xs. \<forall>s t. R t s \<longrightarrow> (\<exists>s'. body x s = Inr s' \<and> R (g x t) s')"
    by simp
  from Cons.IH [OF this s1(2)] s1(1) show ?case by simp
qed

lemma update_row_sim:
  assumes "grid_is A D f P" and "1 \<le> a" and "a \<le> A"
  shows "\<exists>P'. for_each [1..D]
            (\<lambda>d. update_cell A D u (index_map dicetuples_T) transitions_P table_6 a d) (P, n)
          = Inr (P', snd (fold (\<lambda>d. acell u a d) [1..D] (f, n)))
        \<and> grid_is A D (fst (fold (\<lambda>d. acell u a d) [1..D] (f, n))) P'"
proof -
  let ?R = "\<lambda>(t :: (int \<Rightarrow> int \<Rightarrow> real) \<times> int) (s :: real list \<times> int).
      grid_is A D (fst t) (fst s) \<and> snd s = snd t"
  have "\<forall>d\<in>set [1..D]. \<forall>s t. ?R t s \<longrightarrow>
      (\<exists>s'. update_cell A D u (index_map dicetuples_T) transitions_P table_6 a d s = Inr s'
         \<and> ?R (acell u a d t) s')"
  proof (intro ballI allI impI)
    fix d and s :: "real list \<times> int" and t :: "(int \<Rightarrow> int \<Rightarrow> real) \<times> int"
    assume d: "d \<in> set [1..D]" and R: "?R t s"
    obtain P1 m where s: "s = (P1, m)" by (cases s)
    obtain f1 k where t: "t = (f1, k)" by (cases t)
    from d have "1 \<le> d" "d \<le> D" by simp_all
    from update_cell_sim [OF _ assms(2,3) this, of f1 P1 u m] R s t
    show "\<exists>s'. update_cell A D u (index_map dicetuples_T) transitions_P table_6 a d s = Inr s'
         \<and> ?R (acell u a d t) s'"
      by auto
  qed
  from for_each_sim [where R = ?R and t = "(f, n)" and s = "(P, n)", OF this] assms(1)
  show ?thesis by auto
qed

lemma update_elements_sim:
  assumes "grid_is A D f P"
  shows "\<exists>P'. update_elements A D P u dicetuples_T transitions_P table_6
          = Inr (P', snd (apass A D u f))
        \<and> grid_is A D (fst (apass A D u f)) P'"
proof -
  let ?R = "\<lambda>(t :: (int \<Rightarrow> int \<Rightarrow> real) \<times> int) (s :: real list \<times> int).
      grid_is A D (fst t) (fst s) \<and> snd s = snd t"
  let ?body = "\<lambda>a. for_each [1..D]
      (\<lambda>d. update_cell A D u (index_map dicetuples_T) transitions_P table_6 a d)"
  let ?g = "\<lambda>a. fold (\<lambda>d. acell u a d) [1..D]"
  have "\<forall>a\<in>set [1..A]. \<forall>s t. ?R t s \<longrightarrow> (\<exists>s'. ?body a s = Inr s' \<and> ?R (?g a t) s')"
  proof (intro ballI allI impI)
    fix a and s :: "real list \<times> int" and t :: "(int \<Rightarrow> int \<Rightarrow> real) \<times> int"
    assume a: "a \<in> set [1..A]" and R: "?R t s"
    obtain P1 m where s: "s = (P1, m)" by (cases s)
    obtain f1 k where t: "t = (f1, k)" by (cases t)
    from a have "1 \<le> a" "a \<le> A" by simp_all
    from update_row_sim [OF _ this, of D f1 P1 u m] R s t
    show "\<exists>s'. ?body a s = Inr s' \<and> ?R (?g a t) s'"
      by auto
  qed
  from for_each_sim [where R = ?R and t = "(f, 0)" and s = "(P, 0)" and body = ?body and g = ?g,
      OF this] assms
  show ?thesis by (auto simp: update_elements_def apass_def)
qed

section \<open>Cells are resolved once, inside the grid\<close>

lemma sum_abs_resolved:
  "0 \<le> sum_abs f u probs a d is acc \<Longrightarrow> i \<in> set is \<Longrightarrow> probs ! i \<noteq> 0
     \<Longrightarrow> f (a + fst (transitions_P ! i)) (d + snd (transitions_P ! i)) \<noteq> u"
proof (induction "is" arbitrary: acc)
  case Nil
  then show ?case by simp
next
  case (Cons j js)
  show ?case
  proof (cases "probs ! j = 0")
    case True
    with Cons show ?thesis by auto
  next
    case False
    show ?thesis
    proof (cases "f (a + fst (transitions_P ! j)) (d + snd (transitions_P ! j)) = u")
      case True
      with False Cons.prems(1) show ?thesis by simp
    next
      case ne: False
      with False Cons show ?thesis by auto
    qed
  qed
qed

lemma kept_refl: "kept u f f"
  by (simp add: kept_def)

lemma kept_acell:
  assumes "u < 0" and "kept u f0 f"
  shows "kept u f0 (fst (acell u a d (f, n)))"
proof (cases "f a d = u \<and> 0 \<le> sum_abs f u (table_6 ! config_index a d) a d [0..<5] 0")
  case False
  then have "acell u a d (f, n) = (f, n)"
    by (auto simp: acell_def Let_def)
  with assms(2) show ?thesis by simp
next
  case True
  let ?v = "sum_abs f u (table_6 ! config_index a d) a d [0..<5] 0"
  let ?f = "\<lambda>x y. if x = a \<and> y = d then ?v else f x y"
  from True have ac: "fst (acell u a d (f, n)) = ?f"
    by (simp add: acell_def Let_def)
  have res: "f x y \<noteq> u \<Longrightarrow> ?f x y \<noteq> u" for x y
    using True assms(1) by auto
  have f0u: "f0 a d = u"
  proof (rule ccontr)
    assume "f0 a d \<noteq> u"
    with assms(2) True show False
      unfolding kept_def by metis
  qed
  have "f0 x y = u \<and> 0 \<le> ?f x y
        \<and> (\<forall>i\<in>set [0..<5]. table_6 ! config_index x y ! i \<noteq> 0 \<longrightarrow>
              ?f (x + fst (transitions_P ! i)) (y + snd (transitions_P ! i)) \<noteq> u)"
    if diff: "?f x y \<noteq> f0 x y" for x y
  proof (cases "x = a \<and> y = d")
    case here: True
    have "\<forall>i\<in>set [0..<5]. table_6 ! config_index a d ! i \<noteq> 0 \<longrightarrow>
        f (a + fst (transitions_P ! i)) (d + snd (transitions_P ! i)) \<noteq> u"
      using sum_abs_resolved [of f u "table_6 ! config_index a d" a d "[0..<5]" 0] True
      by blast
    then have tg: "\<forall>i\<in>set [0..<5]. table_6 ! config_index a d ! i \<noteq> 0 \<longrightarrow>
        ?f (a + fst (transitions_P ! i)) (d + snd (transitions_P ! i)) \<noteq> u"
      using res by blast
    have nn: "0 \<le> ?f a d" using True by simp
    from here have xa: "x = a" "y = d" by simp_all
    from f0u nn tg show ?thesis unfolding xa by blast
  next
    case other: False
    with diff have "f x y \<noteq> f0 x y" by auto
    with assms(2) have k: "f0 x y = u" "0 \<le> f x y"
      "\<forall>i\<in>set [0..<5]. table_6 ! config_index x y ! i \<noteq> 0 \<longrightarrow>
              f (x + fst (transitions_P ! i)) (y + snd (transitions_P ! i)) \<noteq> u"
      unfolding kept_def by blast+
    from k(3) res have "\<forall>i\<in>set [0..<5]. table_6 ! config_index x y ! i \<noteq> 0 \<longrightarrow>
              ?f (x + fst (transitions_P ! i)) (y + snd (transitions_P ! i)) \<noteq> u"
      by blast
    with k(1,2) other show ?thesis by auto
  qed
  then show ?thesis
    unfolding kept_def ac by blast
qed

lemma kept_row:
  assumes "u < 0"
  shows "kept u f0 (fst st) \<Longrightarrow> kept u f0 (fst (fold (\<lambda>d. acell u a d) ds st))"
proof (induction ds arbitrary: st)
  case Nil
  then show ?case by simp
next
  case (Cons d ds)
  obtain f n where st: "st = (f, n)" by (cases st)
  from kept_acell [OF assms, of f0 f a d n] Cons.prems st
  have "kept u f0 (fst (acell u a d st))" by simp
  from Cons.IH [OF this] show ?case by simp
qed

lemma kept_rows:
  assumes "u < 0"
  shows "kept u f0 (fst st)
     \<Longrightarrow> kept u f0 (fst (fold (\<lambda>a. fold (\<lambda>d. acell u a d) ds) as st))"
proof (induction as arbitrary: st)
  case Nil
  then show ?case by simp
next
  case (Cons a as)
  from kept_row [OF assms Cons.prems, of a ds]
  have "kept u f0 (fst (fold (\<lambda>d. acell u a d) ds st))" .
  from Cons.IH [OF this] show ?case by simp
qed

lemma kept_apass: "u < 0 \<Longrightarrow> kept u f (fst (apass A D u f))"
  unfolding apass_def using kept_rows [of u f "(f, 0)"] by (simp add: kept_refl)


lemma grid_is_self:
  assumes "0 \<le> A" and "0 \<le> D" and "(1 + A) * (1 + D) \<le> 2147483647"
    and "length P = nat ((1 + A) * (1 + D))"
  shows "grid_is A D (\<lambda>a d. P ! nat ((1 + A) * d + a)) P"
  using assms by (simp add: grid_is_def)

lemma grid_is_cell:
  assumes "grid_is A D f P" and "0 \<le> a" and "a \<le> A" and "0 \<le> d" and "d \<le> D"
  shows "P ! nat (linear_index a A d D) = f a d"
proof -
  from assms(1) have "(1 + A) * (1 + D) \<le> 2147483647"
    by (simp add: grid_is_def)
  from linear_index_exact [OF assms(2-5) this] assms show ?thesis
    by (simp add: grid_is_def)
qed

lemma grid_is_length: "grid_is A D f P \<Longrightarrow> grid_is A D g Q \<Longrightarrow> length Q = length P"
  by (simp add: grid_is_def)

lemma acell_other:
  "\<not> (x = a \<and> y = d) \<Longrightarrow> fst (acell u a d st) x y = fst st x y"
  by (cases st) (auto simp: acell_def Let_def)

lemma row_other:
  "y \<notin> set ds \<or> x \<noteq> a \<Longrightarrow> fst (fold (\<lambda>d. acell u a d) ds st) x y = fst st x y"
proof (induction ds arbitrary: st)
  case Nil
  then show ?case by simp
next
  case (Cons d ds)
  from Cons.prems have "\<not> (x = a \<and> y = d)" "y \<notin> set ds \<or> x \<noteq> a" by auto
  from Cons.IH [OF this(2)] acell_other [OF this(1)] show ?case by simp
qed

lemma rows_other:
  "y \<notin> set ds \<or> x \<notin> set as
     \<Longrightarrow> fst (fold (\<lambda>a. fold (\<lambda>d. acell u a d) ds) as st) x y = fst st x y"
proof (induction as arbitrary: st)
  case Nil
  then show ?case by simp
next
  case (Cons a as)
  from Cons.prems have "y \<notin> set ds \<or> x \<noteq> a" "y \<notin> set ds \<or> x \<notin> set as" by auto
  from Cons.IH [OF this(2)] row_other [OF this(1)] show ?case by simp
qed

lemma apass_other:
  "\<not> (1 \<le> x \<and> x \<le> A \<and> 1 \<le> y \<and> y \<le> D) \<Longrightarrow> fst (apass A D u f) x y = f x y"
  unfolding apass_def using rows_other [of y "[1..D]" x "[1..A]" u "(f, 0)"] by auto

lemma acell_counted:
  assumes "snd (acell u a d (f, n)) \<noteq> n"
  shows "f a d = u"
    and "\<forall>i\<in>set [0..<5]. table_6 ! config_index a d ! i \<noteq> 0 \<longrightarrow>
        f (a + fst (transitions_P ! i)) (d + snd (transitions_P ! i)) \<noteq> u"
proof -
  from assms have c: "f a d = u \<and> 0 \<le> sum_abs f u (table_6 ! config_index a d) a d [0..<5] 0"
    by (auto simp: acell_def Let_def split: if_splits)
  then show "f a d = u" by simp
  from c show "\<forall>i\<in>set [0..<5]. table_6 ! config_index a d ! i \<noteq> 0 \<longrightarrow>
        f (a + fst (transitions_P ! i)) (d + snd (transitions_P ! i)) \<noteq> u"
    using sum_abs_resolved [of f u "table_6 ! config_index a d" a d "[0..<5]" 0] by blast
qed

lemma unused_negative: "unused_value < 0"
  by (simp add: unused_value_def)

lemma upto_1_2: "[1..2] = [1, 2::int]" "[1..1] = [1::int]"
  by (simp_all add: upto.simps)

lemma pass_2_1:
  "update_elements 2 1 [0, 0, 1, 0, 0, - 1] unused_value dicetuples_T transitions_P table_6
     = Inr ([0, 0, 1, 0, 0, 5 / 12], 1)"
  by (simp add: update_elements_def update_cell_def upto_1_2 read_at_def write_at_def
      linear_index_def wrap32_def unused_value_def attacker_dice_def defender_dice_def
      lookup0_def index_map_T table_6_def transitions_P_def upt5 Let_def)

lemma pass_2_1_again:
  "update_elements 2 1 [0, 0, 1, 0, 0, 5 / 12] unused_value dicetuples_T transitions_P table_6
     = Inr ([0, 0, 1, 0, 0, 5 / 12], 0)"
  by (simp add: update_elements_def update_cell_def upto_1_2 read_at_def write_at_def
      linear_index_def wrap32_def unused_value_def attacker_dice_def defender_dice_def
      lookup0_def index_map_T table_6_def transitions_P_def upt5 Let_def)

text \<open>
  Claim C8.  A pass of \<open>update_elements\<close> over a grid of the program's size (with the
  sentinel \<open>unused_value = -1\<close> and the tables of \<open>create_prob_table\<close>) leaves every cell
  that holds a non-sentinel value as it is; a cell that it changes held the sentinel and
  holds a non-negative value, hence not the sentinel, afterwards, and all its targets of
  non-zero probability are resolved.  So a cell goes from the sentinel to a resolved value
  at most once and no later pass touches it.  At the level of the loop body: when
  \<open>update_cell\<close> counts a cell as updated, the cell held the sentinel and every target of
  non-zero probability was resolved already in the grid the body started from.
\<close>

theorem update_elements_once:
  assumes "create_prob_table 6 = Some (dicetuples, transitions, probstable)"
    and "0 \<le> A" and "0 \<le> D" and "(1 + A) * (1 + D) \<le> 2147483647"
    and "length P = nat ((1 + A) * (1 + D))"
    and "update_elements A D P unused_value dicetuples transitions probstable = Inr (P', n)"
    and "0 \<le> a" and "a \<le> A" and "0 \<le> d" and "d \<le> D"
  shows "length P' = length P
    \<and> (P ! nat (linear_index a A d D) \<noteq> unused_value
         \<longrightarrow> P' ! nat (linear_index a A d D) = P ! nat (linear_index a A d D))
    \<and> (P' ! nat (linear_index a A d D) \<noteq> P ! nat (linear_index a A d D)
         \<longrightarrow> P ! nat (linear_index a A d D) = unused_value
           \<and> 0 \<le> P' ! nat (linear_index a A d D)
           \<and> P' ! nat (linear_index a A d D) \<noteq> unused_value
           \<and> (\<forall>i < length transitions.
                 probstable ! lookup0 (index_map dicetuples) (attacker_dice a, defender_dice d) ! i \<noteq> 0
                 \<longrightarrow> P' ! nat (linear_index (a + fst (transitions ! i)) A
                                 (d + snd (transitions ! i)) D) \<noteq> unused_value))
    \<and> (\<forall>Q m Q' m'. length Q = length P \<and> 1 \<le> a \<and> 1 \<le> d
          \<and> update_cell A D unused_value (index_map dicetuples) transitions probstable a d (Q, m)
              = Inr (Q', m') \<and> m' \<noteq> m
         \<longrightarrow> Q ! nat (linear_index a A d D) = unused_value
           \<and> (\<forall>i < length transitions.
                 probstable ! lookup0 (index_map dicetuples) (attacker_dice a, defender_dice d) ! i \<noteq> 0
                 \<longrightarrow> Q ! nat (linear_index (a + fst (transitions ! i)) A
                                (d + snd (transitions ! i)) D) \<noteq> unused_value))"
proof -
  from assms(1) have tb: "dicetuples = dicetuples_T" "transitions = transitions_P"
    "probstable = table_6"
    by (simp_all add: create_prob_table_6)
  let ?u = unused_value
  let ?f = "\<lambda>a d. P ! nat ((1 + A) * d + a)"
  let ?f' = "fst (apass A D ?u ?f)"
  note g = grid_is_self [OF assms(2-5)]
  from update_elements_sim [OF g, of ?u] assms(6) have g': "grid_is A D ?f' P'"
    by (auto simp: tb)
  note rng = assms(7-10)
  have k: "kept ?u ?f ?f'"
    by (rule kept_apass [OF unused_negative])
  have c: "P ! nat (linear_index a A d D) = ?f a d"
    by (rule grid_is_cell [OF g rng])
  have c': "P' ! nat (linear_index a A d D) = ?f' a d"
    by (rule grid_is_cell [OF g' rng])
  have len: "length P' = length P"
    by (rule grid_is_length [OF g g'])
  have same: "?f a d \<noteq> ?u \<longrightarrow> ?f' a d = ?f a d"
    using k unfolding kept_def by blast
  have changed: "?f a d = ?u \<and> 0 \<le> ?f' a d \<and> ?f' a d \<noteq> ?u
      \<and> (\<forall>i < length transitions.
            probstable ! lookup0 (index_map dicetuples) (attacker_dice a, defender_dice d) ! i \<noteq> 0
            \<longrightarrow> P' ! nat (linear_index (a + fst (transitions ! i)) A
                                 (d + snd (transitions ! i)) D) \<noteq> ?u)"
    if diff: "?f' a d \<noteq> ?f a d"
  proof -
    from k diff have k1: "?f a d = ?u" "0 \<le> ?f' a d"
      and k2: "\<forall>i\<in>set [0..<5]. table_6 ! config_index a d ! i \<noteq> 0 \<longrightarrow>
              ?f' (a + fst (transitions_P ! i)) (d + snd (transitions_P ! i)) \<noteq> ?u"
      unfolding kept_def by blast+
    have inner: "1 \<le> a \<and> a \<le> A \<and> 1 \<le> d \<and> d \<le> D"
      using apass_other [of a A d D ?u ?f] diff by blast
    have "P' ! nat (linear_index (a + fst (transitions_P ! i)) A
                                 (d + snd (transitions_P ! i)) D) \<noteq> ?u"
      if i: "i < 5" "table_6 ! config_index a d ! i \<noteq> 0" for i
    proof -
      from i(1) have mem: "i \<in> set [0..<5]" by simp
      from targets_in_range [OF _ _ _ _ mem i(2), of A D] inner
      have t: "0 \<le> a + fst (transitions_P ! i)" "a + fst (transitions_P ! i) \<le> A"
        "0 \<le> d + snd (transitions_P ! i)" "d + snd (transitions_P ! i) \<le> D"
        by simp_all
      from grid_is_cell [OF g' t] k2 mem i(2) show ?thesis by simp
    qed
    with k1 unused_negative show ?thesis
      by (simp add: tb length_transitions_P config_index_def)
  qed
  have cellstep: "Q ! nat (linear_index a A d D) = ?u
           \<and> (\<forall>i < length transitions.
                 probstable ! lookup0 (index_map dicetuples) (attacker_dice a, defender_dice d) ! i \<noteq> 0
                 \<longrightarrow> Q ! nat (linear_index (a + fst (transitions ! i)) A
                                (d + snd (transitions ! i)) D) \<noteq> ?u)"
    if q: "length Q = length P" "1 \<le> a" "1 \<le> d"
      "update_cell A D ?u (index_map dicetuples) transitions probstable a d (Q, m) = Inr (Q', m')"
      "m' \<noteq> m" for Q m Q' m'
  proof -
    let ?h = "\<lambda>a d. Q ! nat ((1 + A) * d + a)"
    from q(1) assms(5) have "length Q = nat ((1 + A) * (1 + D))" by simp
    note gq = grid_is_self [OF assms(2-4) this]
    from update_cell_sim [OF gq q(2) assms(8) q(3) assms(10), of ?u m] q(4)
    have "m' = snd (acell ?u a d (?h, m))"
      by (auto simp: tb)
    with q(5) have cnt: "snd (acell ?u a d (?h, m)) \<noteq> m" by simp
    note ac = acell_counted [OF cnt]
    have "Q ! nat (linear_index (a + fst (transitions_P ! i)) A
                                 (d + snd (transitions_P ! i)) D) \<noteq> ?u"
      if i: "i < 5" "table_6 ! config_index a d ! i \<noteq> 0" for i
    proof -
      from i(1) have mem: "i \<in> set [0..<5]" by simp
      from targets_in_range [OF q(2) assms(8) q(3) assms(10) mem i(2)]
      have t: "0 \<le> a + fst (transitions_P ! i)" "a + fst (transitions_P ! i) \<le> A"
        "0 \<le> d + snd (transitions_P ! i)" "d + snd (transitions_P ! i) \<le> D"
        by simp_all
      from grid_is_cell [OF gq t] ac(2) mem i(2) show ?thesis by simp
    qed
    with ac(1) grid_is_cell [OF gq rng] show ?thesis
      by (simp add: tb length_transitions_P config_index_def)
  qed
  from len same changed cellstep show ?thesis
    unfolding c c' by blast
qed


theorem update_elements_once_witness:
  "create_prob_table 6 = Some (dicetuples_T, transitions_P, table_6)
   \<and> update_elements 2 1 [0, 0, 1, 0, 0, - 1] unused_value dicetuples_T transitions_P table_6
       = Inr ([0, 0, 1, 0, 0, 5 / 12], 1)
   \<and> [0, 0, 1, 0, 0, - 1] ! nat (linear_index 2 2 1 1) = unused_value
   \<and> [0, 0, 1, 0, 0, 5 / 12] ! nat (linear_index 2 2 1 1) \<noteq> unused_value
   \<and> [0, 0, 1, 0, 0, 5 / 12 :: real] ! nat (linear_index (2 + fst (transitions_P ! 3)) 2
          (1 + snd (transitions_P ! 3)) 1) \<noteq> unused_value"
proof -
  have h: "(0::int) \<le> 2" "(0::int) \<le> 1" "(1 + 2) * (1 + 1) \<le> (2147483647::int)"
    "length [0, 0, 1, 0, 0, - 1 :: real] = nat ((1 + 2) * (1 + 1))"
    "(2::int) \<le> 2" "(1::int) \<le> 1"
    by simp_all
  have ne: "[0, 0, 1, 0, 0, 5 / 12 :: real] ! nat (linear_index 2 2 1 1)
      \<noteq> [0, 0, 1, 0, 0, - 1] ! nat (linear_index 2 2 1 1)"
    by (simp add: linear_index_def wrap32_def)
  have p3: "table_6 ! lookup0 (index_map dicetuples_T) (attacker_dice 2, defender_dice 1) ! 3 \<noteq> 0"
    "(3::nat) < length transitions_P"
    by (simp_all add: attacker_dice_def defender_dice_def lookup0_def index_map_T table_6_def
        transitions_P_def)
  from update_elements_once [OF create_prob_table_6 h(1-4) pass_2_1 h(1) h(5) h(2) h(6)] ne p3
  show ?thesis
    using create_prob_table_6 pass_2_1 by blast
qed

text \<open>
  Claim C10.  On a vector of \<open>(A+1)*(D+1)\<close> entries \<open>update_elements\<close> never reaches an
  access outside the vector: it returns a grid and a count, not \<open>OutOfBounds\<close>.  Every
  outcome delta of non-zero probability at a cell \<open>(a, d)\<close> of the scanned region has its
  target inside \<open>[0,A] \<times> [0,D]\<close> and its linear index inside the vector; the delta
  \<open>(0,-2)\<close>, whose target would have \<open>d - 2 = -1\<close> at \<open>d = 1\<close>, has probability zero there
  and is skipped before its index is computed.
\<close>

theorem update_elements_in_bounds:
  assumes "create_prob_table 6 = Some (dicetuples, transitions, probstable)"
    and "0 \<le> A" and "0 \<le> D" and "(1 + A) * (1 + D) \<le> 2147483647"
    and "length P = nat ((1 + A) * (1 + D))"
  shows "(\<exists>P' n. update_elements A D P u dicetuples transitions probstable = Inr (P', n))
    \<and> (1 \<le> a \<and> a \<le> A \<and> 1 \<le> d \<and> d \<le> D \<and> i < length transitions
         \<and> probstable ! lookup0 (index_map dicetuples) (attacker_dice a, defender_dice d) ! i \<noteq> 0
        \<longrightarrow> 0 \<le> a + fst (transitions ! i) \<and> a + fst (transitions ! i) \<le> A
          \<and> 0 \<le> d + snd (transitions ! i) \<and> d + snd (transitions ! i) \<le> D
          \<and> 0 \<le> linear_index (a + fst (transitions ! i)) A (d + snd (transitions ! i)) D
          \<and> linear_index (a + fst (transitions ! i)) A (d + snd (transitions ! i)) D
              < int (length P))
    \<and> (1 \<le> a \<longrightarrow> transitions ! 4 = (0, - 2)
          \<and> probstable ! lookup0 (index_map dicetuples) (attacker_dice a, defender_dice 1) ! 4 = 0)"
proof -
  from assms(1) have tb: "dicetuples = dicetuples_T" "transitions = transitions_P"
    "probstable = table_6"
    by (simp_all add: create_prob_table_6)
  note g = grid_is_self [OF assms(2-5)]
  from update_elements_sim [OF g, of u]
  have run: "\<exists>P' n. update_elements A D P u dicetuples transitions probstable = Inr (P', n)"
    by (auto simp: tb)
  have tg: "0 \<le> a + fst (transitions ! i) \<and> a + fst (transitions ! i) \<le> A
          \<and> 0 \<le> d + snd (transitions ! i) \<and> d + snd (transitions ! i) \<le> D
          \<and> 0 \<le> linear_index (a + fst (transitions ! i)) A (d + snd (transitions ! i)) D
          \<and> linear_index (a + fst (transitions ! i)) A (d + snd (transitions ! i)) D
              < int (length P)"
    if h: "1 \<le> a \<and> a \<le> A \<and> 1 \<le> d \<and> d \<le> D \<and> i < length transitions
         \<and> probstable ! lookup0 (index_map dicetuples) (attacker_dice a, defender_dice d) ! i \<noteq> 0"
  proof -
    from h have mem: "i \<in> set [0..<5]" and nz: "table_6 ! config_index a d ! i \<noteq> 0"
      by (simp_all add: tb length_transitions_P config_index_def)
    from h targets_in_range [OF _ _ _ _ mem nz, of A D]
    have t: "0 \<le> a + fst (transitions_P ! i)" "a + fst (transitions_P ! i) \<le> A"
      "0 \<le> d + snd (transitions_P ! i)" "d + snd (transitions_P ! i) \<le> D"
      by simp_all
    from index_range [OF t] linear_index_exact [OF t assms(4)] assms(5) t show ?thesis
      by (simp add: tb)
  qed
  have last: "transitions ! 4 = (0, - 2)
      \<and> probstable ! lookup0 (index_map dicetuples) (attacker_dice a, defender_dice 1) ! 4 = 0"
    if "1 \<le> a"
  proof -
    have "(1::int) \<le> 1" by simp
    with that show ?thesis
      by (cases rule: row_cases [of a 1])
        (simp_all add: tb transitions_P_def config_index_def [symmetric])
  qed
  from run tg last show ?thesis by blast
qed

theorem update_elements_in_bounds_witness:
  "(\<exists>P' n. update_elements 2 1 [0, 0, 1, 0, 0, - 1] unused_value dicetuples_T transitions_P table_6
        = Inr (P', n))
   \<and> linear_index (2 + fst (transitions_P ! 3)) 2 (1 + snd (transitions_P ! 3)) 1
        < int (length [0, 0, 1, 0, 0, - 1 :: real])
   \<and> table_6 ! lookup0 (index_map dicetuples_T) (attacker_dice 2, defender_dice 1) ! 4 = 0"
proof -
  have h: "(0::int) \<le> 2" "(0::int) \<le> 1" "(1 + 2) * (1 + 1) \<le> (2147483647::int)"
    "length [0, 0, 1, 0, 0, - 1 :: real] = nat ((1 + 2) * (1 + 1))"
    by simp_all
  have p3: "(1::int) \<le> 2 \<and> (2::int) \<le> 2 \<and> (1::int) \<le> 1 \<and> (1::int) \<le> 1
      \<and> 3 < length transitions_P
      \<and> table_6 ! lookup0 (index_map dicetuples_T) (attacker_dice 2, defender_dice 1) ! 3 \<noteq> 0"
    by (simp add: attacker_dice_def defender_dice_def lookup0_def index_map_T table_6_def
        transitions_P_def)
  from update_elements_in_bounds [OF create_prob_table_6 h, of unused_value 2 1 3] p3
  show ?thesis by simp
qed

section \<open>The first pass solves the recurrence\<close>

lemma win_prob_boundary:
  "a \<le> 1 \<Longrightarrow> win_prob a d = 0"
  "2 \<le> a \<Longrightarrow> d \<le> 0 \<Longrightarrow> win_prob a d = 1"
  by (simp_all add: win_prob.simps)

lemma win_prob_interior:
  assumes "2 \<le> a" and "1 \<le> d"
  shows "win_prob a d =
      table_6 ! config_index a d ! 0 * win_prob (a - 2) d
    + table_6 ! config_index a d ! 1 * win_prob (a - 1) (d - 1)
    + table_6 ! config_index a d ! 2 * win_prob (a - 1) d
    + table_6 ! config_index a d ! 3 * win_prob a (d - 1)
    + table_6 ! config_index a d ! 4 * win_prob a (d - 2)"
  using assms by (subst win_prob.simps) (simp add: Let_def)

lemma win_prob_single:
  assumes "2 \<le> a" and "1 \<le> d" and "table_6 ! config_index a d = [0, 0, p, q, 0]"
  shows "win_prob a d = p * win_prob (a - 1) d + q * win_prob a (d - 1)"
  by (simp add: win_prob_interior [OF assms(1,2)] assms(3))

lemma win_prob_double:
  assumes "2 \<le> a" and "1 \<le> d" and "table_6 ! config_index a d = [p, q, 0, 0, r]"
  shows "win_prob a d = p * win_prob (a - 2) d + q * win_prob (a - 1) (d - 1)
    + r * win_prob a (d - 2)"
  by (simp add: win_prob_interior [OF assms(1,2)] assms(3))

lemma win_prob_bounds: "0 \<le> win_prob a d \<and> win_prob a d \<le> 1"
proof (induction a d rule: win_prob.induct)
  case (1 a d)
  show ?case
  proof (cases "a \<le> 1 \<or> d \<le> 0")
    case True
    show ?thesis
    proof (cases "a \<le> 1")
      case True
      then show ?thesis by (simp add: win_prob_boundary(1))
    next
      case False
      with True have "2 \<le> a" "d \<le> 0" by simp_all
      then show ?thesis by (simp add: win_prob_boundary(2))
    qed
  next
    case False
    then have ad: "2 \<le> a" "1 \<le> d" by simp_all
    from False have "\<not> a \<le> 1" "\<not> d \<le> 0" by simp_all
    note IH = "1.IH" [OF this refl]
    from IH have ih:
      "0 \<le> win_prob (a - 2) d" "win_prob (a - 2) d \<le> 1"
      "0 \<le> win_prob (a - 1) (d - 1)" "win_prob (a - 1) (d - 1) \<le> 1"
      "0 \<le> win_prob (a - 1) d" "win_prob (a - 1) d \<le> 1"
      "0 \<le> win_prob a (d - 1)" "win_prob a (d - 1) \<le> 1"
      "0 \<le> win_prob a (d - 2)" "win_prob a (d - 2) \<le> 1"
      by simp_all
    from ad have "1 \<le> a" by simp
    from this ad(2) show ?thesis
    proof (cases rule: row_cases)
      case 1
      with ad show ?thesis by simp
    next
      case 2
      from win_prob_single [OF ad 2(3)] ih show ?thesis by linarith
    next
      case 3
      from win_prob_single [OF ad 3(3)] ih show ?thesis by linarith
    next
      case 4
      from win_prob_single [OF ad 4(3)] ih show ?thesis by linarith
    next
      case 5
      from win_prob_single [OF ad 5(3)] ih show ?thesis by linarith
    next
      case 6
      from win_prob_double [OF ad 6(3)] ih show ?thesis by linarith
    next
      case 7
      from win_prob_double [OF ad 7(3)] ih show ?thesis by linarith
    qed
  qed
qed

lemma win_prob_resolved: "win_prob a d \<noteq> unused_value"
  using win_prob_bounds [of a d] by (simp add: unused_value_def)


lemma sum_abs_single:
  assumes "p \<noteq> 0" and "q \<noteq> 0" and "f (a - 1) d \<noteq> u" and "f a (d - 1) \<noteq> u"
  shows "sum_abs f u [0, 0, p, q, 0] a d [0, 1, 2, 3, 4] 0 = p * f (a - 1) d + q * f a (d - 1)"
  using assms by (simp add: transitions_P_def)

lemma sum_abs_double:
  assumes "p \<noteq> 0" and "q \<noteq> 0" and "r \<noteq> 0"
    and "f (a - 2) d \<noteq> u" and "f (a - 1) (d - 1) \<noteq> u" and "f a (d - 2) \<noteq> u"
  shows "sum_abs f u [p, q, 0, 0, r] a d [0, 1, 2, 3, 4] 0
    = p * f (a - 2) d + q * f (a - 1) (d - 1) + r * f a (d - 2)"
  using assms by (simp add: transitions_P_def)

lemma acell_solved_interior:
  assumes "2 \<le> a" and "1 \<le> d" and "d \<le> D"
  shows "acell unused_value a d (solved D a (d - 1), n) = (solved D a d, n + 1)"
proof -
  let ?f = "solved D a (d - 1)"
  have cur: "?f a d = unused_value"
    using assms by (simp add: solved_def)
  have t: "?f (a - 2) d = win_prob (a - 2) d" "?f (a - 1) (d - 1) = win_prob (a - 1) (d - 1)"
    "?f (a - 1) d = win_prob (a - 1) d" "?f a (d - 1) = win_prob a (d - 1)"
    "?f a (d - 2) = win_prob a (d - 2)"
    by (simp_all add: solved_def)
  have r: "?f x y \<noteq> unused_value" if "?f x y = win_prob x y" for x y
    using that win_prob_resolved by simp
  have single: "sum_abs ?f unused_value (table_6 ! config_index a d) a d [0..<5] 0 = win_prob a d"
    if row: "table_6 ! config_index a d = [0, 0, p, q, 0]" and nz: "p \<noteq> 0" "q \<noteq> 0" for p q
  proof -
    have "sum_abs ?f unused_value [0, 0, p, q, 0] a d [0, 1, 2, 3, 4] 0
        = p * ?f (a - 1) d + q * ?f a (d - 1)"
      by (rule sum_abs_single [OF nz]) (rule r, rule t)+
    also have "\<dots> = win_prob a d"
      by (simp only: t win_prob_single [OF assms(1,2) row])
    finally show ?thesis
      by (simp only: row upt5)
  qed
  have double: "sum_abs ?f unused_value (table_6 ! config_index a d) a d [0..<5] 0 = win_prob a d"
    if row: "table_6 ! config_index a d = [p, q, 0, 0, s]" and nz: "p \<noteq> 0" "q \<noteq> 0" "s \<noteq> 0"
    for p q s
  proof -
    have "sum_abs ?f unused_value [p, q, 0, 0, s] a d [0, 1, 2, 3, 4] 0
        = p * ?f (a - 2) d + q * ?f (a - 1) (d - 1) + s * ?f a (d - 2)"
      by (rule sum_abs_double [OF nz]) (rule r, rule t)+
    also have "\<dots> = win_prob a d"
      by (simp only: t win_prob_double [OF assms(1,2) row])
    finally show ?thesis
      by (simp only: row upt5)
  qed
  from assms have "1 \<le> a" by simp
  from this assms(2)
  have v: "sum_abs ?f unused_value (table_6 ! config_index a d) a d [0..<5] 0 = win_prob a d"
  proof (cases rule: row_cases)
    case 1
    with assms show ?thesis by simp
  next
    case 2
    show ?thesis by (rule single [OF 2(3)]) simp_all
  next
    case 3
    show ?thesis by (rule single [OF 3(3)]) simp_all
  next
    case 4
    show ?thesis by (rule single [OF 4(3)]) simp_all
  next
    case 5
    show ?thesis by (rule single [OF 5(3)]) simp_all
  next
    case 6
    show ?thesis by (rule double [OF 6(3)]) simp_all
  next
    case 7
    show ?thesis by (rule double [OF 7(3)]) simp_all
  qed
  have upd: "(\<lambda>x y. if x = a \<and> y = d then win_prob a d else ?f x y) = solved D a d"
    using assms by (intro ext) (auto simp: solved_def)
  have nn: "0 \<le> win_prob a d"
    using win_prob_bounds by simp
  show ?thesis
    by (simp only: acell_def prod.case cur v Let_def nn upd) simp
qed

lemma acell_solved_first_row:
  assumes "1 \<le> d"
  shows "acell unused_value 1 d (solved D 1 (d - 1), n) = (solved D 1 d, n)"
proof -
  have "solved D 1 (d - 1) 1 d \<noteq> unused_value"
    by (simp add: solved_def win_prob_resolved)
  moreover have "solved D 1 (d - 1) = solved D 1 d"
    by (intro ext) (auto simp: solved_def)
  ultimately show ?thesis
    by (simp add: acell_def)
qed

lemma upto_snoc: "1 \<le> k + 1 \<Longrightarrow> [1..k + 1] = [1..k] @ [k + 1]"
  using upto_rec2 [of 1 "k + 1"] by simp

lemma row_solved:
  assumes "1 \<le> a" and "0 \<le> k"
  shows "k \<le> D \<longrightarrow> fold (\<lambda>d. acell unused_value a d) [1..k] (solved D a 0, n)
    = (solved D a k, if 2 \<le> a then n + k else n)"
  using assms(2)
proof (induction k rule: int_ge_induct)
  case base
  show ?case by simp
next
  case (step k)
  show ?case
  proof
    assume kd: "k + 1 \<le> D"
    with step have ih: "fold (\<lambda>d. acell unused_value a d) [1..k] (solved D a 0, n)
        = (solved D a k, if 2 \<le> a then n + k else n)"
      by simp
    have snoc: "[1..k + 1] = [1..k] @ [k + 1]"
      using step.hyps by (intro upto_snoc) simp
    show "fold (\<lambda>d. acell unused_value a d) [1..k + 1] (solved D a 0, n)
        = (solved D a (k + 1), if 2 \<le> a then n + (k + 1) else n)"
    proof (cases "2 \<le> a")
      case True
      from acell_solved_interior [OF True _ kd, of "n + k"] step.hyps
      have "acell unused_value a (k + 1) (solved D a k, n + k) = (solved D a (k + 1), n + k + 1)"
        by simp
      with True ih snoc show ?thesis by simp
    next
      case False
      with assms(1) have a1: "a = 1" by simp
      from acell_solved_first_row [of "k + 1" D n] step.hyps
      have "acell unused_value 1 (k + 1) (solved D 1 k, n) = (solved D 1 (k + 1), n)"
        by simp
      with a1 ih snoc show ?thesis by simp
    qed
  qed
qed

lemma solved_next_row:
  "solved D a D = solved D (a + 1) 0"
  by (intro ext) (auto simp: solved_def)

lemma rows_solved:
  assumes "0 \<le> D" and "0 \<le> k"
  shows "fold (\<lambda>a. fold (\<lambda>d. acell unused_value a d) [1..D]) [1..k] (solved D 1 0, 0)
    = (solved D (k + 1) 0, if 1 \<le> k then (k - 1) * D else 0)"
  using assms(2)
proof (induction k rule: int_ge_induct)
  case base
  show ?case by simp
next
  case (step k)
  have snoc: "[1..k + 1] = [1..k] @ [k + 1]"
    using step.hyps by (intro upto_snoc) simp
  let ?n = "if 1 \<le> k then (k - 1) * D else 0"
  have "1 \<le> k + 1" using step.hyps by simp
  from row_solved [OF this assms(1), of D ?n]
  have row: "fold (\<lambda>d. acell unused_value (k + 1) d) [1..D] (solved D (k + 1) 0, ?n)
      = (solved D (k + 1) D, if 2 \<le> k + 1 then ?n + D else ?n)"
    by simp
  have cnt: "(if 2 \<le> k + 1 then ?n + D else ?n) = (if 1 \<le> k + 1 then (k + 1 - 1) * D else 0)"
    using step.hyps by (auto simp: algebra_simps)
  show ?case
    by (simp only: snoc fold_append comp_apply step.IH fold_simps row cnt solved_next_row id_apply)
qed

lemma apass_first:
  assumes "1 \<le> A" and "0 \<le> D"
  shows "apass A D unused_value (solved D 1 0) = (solved D (A + 1) 0, (A - 1) * D)"
  using rows_solved [OF assms(2), of A] assms(1) by (simp add: apass_def)

lemma acell_resolved: "fst st a d \<noteq> u \<Longrightarrow> acell u a d st = st"
  by (cases st) (simp add: acell_def)

lemma row_resolved:
  "\<forall>d\<in>set ds. fst st a d \<noteq> u \<Longrightarrow> fold (\<lambda>d. acell u a d) ds st = st"
  by (induction ds) (simp_all add: acell_resolved)

lemma rows_resolved:
  "\<forall>a\<in>set as. \<forall>d\<in>set ds. fst st a d \<noteq> u
     \<Longrightarrow> fold (\<lambda>a. fold (\<lambda>d. acell u a d) ds) as st = st"
  by (induction as) (simp_all add: row_resolved)

lemma apass_second:
  "apass A D unused_value (solved D (A + 1) 0) = (solved D (A + 1) 0, 0)"
  unfolding apass_def
  by (rule rows_resolved) (simp add: solved_def win_prob_resolved)

section \<open>The initial grid\<close>

lemma grid_is_cong:
  assumes "grid_is A D f P"
    and "\<And>a d. 0 \<le> a \<Longrightarrow> a \<le> A \<Longrightarrow> 0 \<le> d \<Longrightarrow> d \<le> D \<Longrightarrow> f a d = g a d"
  shows "grid_is A D g P"
  using assms by (simp add: grid_is_def)

lemma grid_put:
  assumes "grid_is A D f P" and "0 \<le> i" and "i \<le> A" and "0 \<le> j" and "j \<le> D"
  shows "\<exists>P'. write_at P (linear_index i A j D) v = Inr P' \<and> grid_is A D (put f i j v) P'"
  using grid_write [OF assms, of v] by (simp add: put_def)

lemma put_col: "fold (\<lambda>j f. put f i j v) ys f x y = (if x = i \<and> y \<in> set ys then v else f x y)"
  by (induction ys arbitrary: f) (auto simp: put_def)

lemma put_all:
  "fold (\<lambda>i. fold (\<lambda>j f. put f i j v) ys) xs f x y
    = (if x \<in> set xs \<and> y \<in> set ys then v else f x y)"
  by (induction xs arbitrary: f) (auto simp: put_col)

lemma put_two:
  "fold (\<lambda>j f. put (put f 0 j v) 1 j v) ys f x y
    = (if (x = 0 \<or> x = 1) \<and> y \<in> set ys then v else f x y)"
  by (induction ys arbitrary: f) (auto simp: put_def)

lemma put_row: "fold (\<lambda>i f. put f i 0 v) xs f x y = (if x \<in> set xs \<and> y = 0 then v else f x y)"
  by (induction xs arbitrary: f) (auto simp: put_def)

lemma grid_replicate:
  assumes "0 \<le> A" and "0 \<le> D" and "(1 + A) * (1 + D) \<le> 2147483647"
  shows "grid_is A D (\<lambda>a d. 0) (replicate (nat ((1 + A) * (1 + D))) 0)"
proof -
  have "replicate (nat ((1 + A) * (1 + D))) (0::real) ! nat ((1 + A) * d + a) = 0"
    if "0 \<le> a" "a \<le> A" "0 \<le> d" "d \<le> D" for a d
    using index_range [OF that] by simp
  with assms show ?thesis by (simp add: grid_is_def)
qed

lemma init_grid_solved:
  assumes "1 \<le> A" and "0 \<le> D" and "(1 + A) * (1 + D) \<le> 2147483647"
  shows "\<exists>P. init_grid A D (replicate (nat ((1 + A) * (1 + D))) 0) = Inr P
    \<and> grid_is A D (solved D 1 0) P"
proof -
  let ?R = "\<lambda>(f :: int \<Rightarrow> int \<Rightarrow> real) (P :: real list). grid_is A D f P"
  let ?P0 = "replicate (nat ((1 + A) * (1 + D))) (0::real)"
  let ?f0 = "\<lambda>(a::int) (d::int). 0::real"
  let ?u = unused_value
  from assms have A0: "0 \<le> A" by simp
  note g0 = grid_replicate [OF A0 assms(2,3)]
  \<comment> \<open>first loop: the sentinel everywhere\<close>
  let ?b1 = "\<lambda>i. for_each [0..D] (\<lambda>j P. write_at P (linear_index i A j D) ?u)"
  let ?g1 = "\<lambda>i. fold (\<lambda>j f. put f i j ?u) [0..D]"
  have inner1: "\<exists>P'. ?b1 i P = Inr P' \<and> ?R (?g1 i f) P'" if "i \<in> set [0..A]" "?R f P" for i f P
  proof -
    have "\<forall>j\<in>set [0..D]. \<forall>s t. ?R t s \<longrightarrow>
        (\<exists>s'. write_at s (linear_index i A j D) ?u = Inr s' \<and> ?R (put t i j ?u) s')"
      using that(1) by (auto intro: grid_put)
    from for_each_sim [where R = ?R and body = "\<lambda>j P. write_at P (linear_index i A j D) ?u"
        and g = "\<lambda>j f. put f i j ?u", OF this that(2)]
    show ?thesis .
  qed
  have "\<forall>i\<in>set [0..A]. \<forall>s t. ?R t s \<longrightarrow> (\<exists>s'. ?b1 i s = Inr s' \<and> ?R (?g1 i t) s')"
    using inner1 by blast
  from for_each_sim [where R = ?R and body = ?b1 and g = ?g1, OF this g0]
  obtain P1 where P1: "for_each [0..A] ?b1 ?P0 = Inr P1"
    and g1: "grid_is A D (fold ?g1 [0..A] ?f0) P1"
    by blast
  let ?f1 = "fold ?g1 [0..A] ?f0"
  \<comment> \<open>second loop: the columns a = 0 and a = 1\<close>
  let ?b2 = "\<lambda>j P. case write_at P (linear_index 0 A j D) 0 of
                    Inl e \<Rightarrow> Inl e
                  | Inr P' \<Rightarrow> write_at P' (linear_index 1 A j D) 0"
  let ?g2 = "\<lambda>j f. put (put f 0 j 0) 1 j 0"
  have "\<exists>s'. ?b2 j s = Inr s' \<and> ?R (?g2 j t) s'" if "j \<in> set [0..D]" "?R t s" for j s t
  proof -
    from that(1) have j: "0 \<le> j" "j \<le> D" by simp_all
    from grid_put [OF that(2) _ A0 j, of 0] obtain s1 where
      s1: "write_at s (linear_index 0 A j D) 0 = Inr s1" "grid_is A D (put t 0 j 0) s1"
      by auto
    from grid_put [OF s1(2) _ assms(1) j, of 0] obtain s2 where
      "write_at s1 (linear_index 1 A j D) 0 = Inr s2" "grid_is A D (put (put t 0 j 0) 1 j 0) s2"
      by auto
    with s1(1) show ?thesis by simp
  qed
  then have "\<forall>j\<in>set [0..D]. \<forall>s t. ?R t s \<longrightarrow> (\<exists>s'. ?b2 j s = Inr s' \<and> ?R (?g2 j t) s')"
    by blast
  from for_each_sim [where R = ?R and body = ?b2 and g = ?g2, OF this g1]
  obtain P2 where P2: "for_each [0..D] ?b2 P1 = Inr P2"
    and g2: "grid_is A D (fold ?g2 [0..D] ?f1) P2"
    by blast
  let ?f2 = "fold ?g2 [0..D] ?f1"
  \<comment> \<open>third loop: the row d = 0 from a = 2\<close>
  let ?b3 = "\<lambda>i P. write_at P (linear_index i A 0 D) 1"
  let ?g3 = "\<lambda>i f. put f i 0 1"
  have "\<forall>i\<in>set [2..A]. \<forall>s t. ?R t s \<longrightarrow> (\<exists>s'. ?b3 i s = Inr s' \<and> ?R (?g3 i t) s')"
    using assms(2) by (auto intro: grid_put)
  from for_each_sim [where R = ?R and body = ?b3 and g = ?g3, OF this g2]
  obtain P3 where P3: "for_each [2..A] ?b3 P2 = Inr P3"
    and g3: "grid_is A D (fold ?g3 [2..A] ?f2) P3"
    by blast
  have "fold ?g3 [2..A] ?f2 a d = solved D 1 0 a d"
    if "0 \<le> a" "a \<le> A" "0 \<le> d" "d \<le> D" for a d
    using that
    by (auto simp: put_row put_two put_all solved_def win_prob_boundary)
  from grid_is_cong [OF g3 this] have "grid_is A D (solved D 1 0) P3" .
  moreover have "init_grid A D ?P0 = Inr P3"
    by (simp add: init_grid_def P1 P2 P3)
  ultimately show ?thesis by blast
qed

section \<open>The run of the program in DP mode\<close>

lemma collect_sim:
  "\<forall>x\<in>set xs. h x = Inr (k x)
    \<Longrightarrow> for_each xs (\<lambda>x acc. case h x of Inl e \<Rightarrow> Inl e | Inr v \<Rightarrow> Inr (acc @ [v])) acc
        = Inr (acc @ map k xs)"
  by (induction xs arbitrary: acc) simp_all

lemma grid_rows_ok:
  assumes "grid_is A D f P"
  shows "grid_rows A D P = Inr (map (\<lambda>a. map (\<lambda>d. f a d) [0..D]) [0..A])"
proof -
  let ?inner = "\<lambda>a. for_each [0..D] (\<lambda>d row.
              case read_at P (linear_index a A d D) of
                Inl e \<Rightarrow> Inl e
              | Inr v \<Rightarrow> Inr (row @ [v])) []"
  have "?inner a = Inr (map (\<lambda>d. f a d) [0..D])" if "a \<in> set [0..A]" for a
  proof -
    have "\<forall>d\<in>set [0..D]. read_at P (linear_index a A d D) = Inr (f a d)"
      using that by (auto intro: grid_read [OF assms])
    from collect_sim [where h = "\<lambda>d. read_at P (linear_index a A d D)" and k = "\<lambda>d. f a d",
        OF this, of "[]"]
    show ?thesis by simp
  qed
  then have "\<forall>a\<in>set [0..A]. ?inner a = Inr (map (\<lambda>d. f a d) [0..D])"
    by blast
  from collect_sim [where h = ?inner and k = "\<lambda>a. map (\<lambda>d. f a d) [0..D]", OF this, of "[]"]
  show ?thesis by (simp add: grid_rows_def)
qed

lemma relax_solved:
  assumes "2 \<le> A" and "1 \<le> D" and "grid_is A D (solved D 1 0) P"
  shows "\<exists>P'. relax A D dicetuples_T transitions_P table_6 P 0 0 = Some (Inr (P', (A - 1) * D, 2))
    \<and> grid_is A D (solved D (A + 1) 0) P'"
proof -
  from assms have A1: "1 \<le> A" and D0: "0 \<le> D" by simp_all
  from update_elements_sim [OF assms(3), of unused_value] apass_first [OF A1 D0]
  obtain P1 where P1: "update_elements A D P unused_value dicetuples_T transitions_P table_6
      = Inr (P1, (A - 1) * D)" and g1: "grid_is A D (solved D (A + 1) 0) P1"
    by auto
  from update_elements_sim [OF g1, of unused_value] apass_second [of A D]
  obtain P2 where P2: "update_elements A D P1 unused_value dicetuples_T transitions_P table_6
      = Inr (P2, 0)" and g2: "grid_is A D (solved D (A + 1) 0) P2"
    by auto
  have ne: "A \<noteq> 1" "D \<noteq> 0"
    using assms(1,2) by simp_all
  have "relax A D dicetuples_T transitions_P table_6 P 0 0
      = relax A D dicetuples_T transitions_P table_6 P1 ((A - 1) * D) 1"
    by (subst relax.simps) (simp add: P1 ne)
  also have "\<dots> = Some (Inr (P2, (A - 1) * D, 2))"
    by (subst relax.simps) (simp add: P2)
  finally show ?thesis using g2 by blast
qed

lemma solved_all:
  "map (\<lambda>a. map (\<lambda>d. solved D (A + 1) 0 a d) [0..D]) [0..A]
    = map (\<lambda>a. map (\<lambda>d. win_prob a d) [0..D]) [0..A]"
  by (simp add: solved_def)

lemma size_exact:
  assumes "0 \<le> A" and "0 \<le> D" and "(1 + A) * (1 + D) \<le> 2147483647"
  shows "wrap32 (wrap32 (1 + A) * wrap32 (1 + D)) = (1 + A) * (1 + D)"
proof -
  have "(1 + A) * 1 \<le> (1 + A) * (1 + D)"
    using assms(1,2) by (intro mult_left_mono) simp_all
  with assms(3) have "1 + A \<le> 2147483647" by simp
  with assms(1) have a: "wrap32 (1 + A) = 1 + A" by (simp add: wrap32_id)
  have "1 * (1 + D) \<le> (1 + A) * (1 + D)"
    using assms(1,2) by (intro mult_right_mono) simp_all
  with assms(3) have "1 + D \<le> 2147483647" by simp
  with assms(2) have d: "wrap32 (1 + D) = 1 + D" by (simp add: wrap32_id)
  have "0 \<le> (1 + A) * (1 + D)"
    using assms(1,2) by simp
  with assms(3) show ?thesis
    by (simp only: a d) (simp add: wrap32_id)
qed

text \<open>The grid of win probabilities, as \<open>main\<close> prints it.\<close>

lemma dp_mode_run:
  assumes "2 \<le> wrap32 arg1" and "1 \<le> wrap32 arg2"
    and "(1 + wrap32 arg1) * (1 + wrap32 arg2) \<le> 2147483647"
    and "argc = 3 \<or> (argc = 4 \<and> wrap32 arg3 < 1)"
  shows "main argc arg1 arg2 arg3 gens
    = Some (Exit 0 (Grid (map (\<lambda>a. map (\<lambda>d. win_prob a d) [0..wrap32 arg2]) [0..wrap32 arg1])))"
proof -
  let ?A = "wrap32 arg1" and ?D = "wrap32 arg2"
  from assms have A: "0 \<le> ?A" "1 \<le> ?A" and D: "0 \<le> ?D" by simp_all
  note sz = size_exact [OF A(1) D assms(3)]
  from init_grid_solved [OF A(2) D assms(3)] obtain P0 where
    P0: "init_grid ?A ?D (replicate (nat ((1 + ?A) * (1 + ?D))) 0) = Inr P0"
    and g0: "grid_is ?A ?D (solved ?D 1 0) P0"
    by blast
  from relax_solved [OF assms(1,2) g0] obtain P' where
    rl: "relax ?A ?D dicetuples_T transitions_P table_6 P0 0 0 = Some (Inr (P', (?A - 1) * ?D, 2))"
    and g': "grid_is ?A ?D (solved ?D (?A + 1) 0) P'"
    by blast
  have rows: "grid_rows ?A ?D P'
      = Inr (map (\<lambda>a. map (\<lambda>d. win_prob a d) [0..?D]) [0..?A])"
    by (simp only: grid_rows_ok [OF g'] solved_all)
  have nn: "\<not> (1 + ?A) * (1 + ?D) < 0"
    using A(1) D by (simp add: not_less)
  from assms(1,2,4) show ?thesis
    by (auto simp: main_def Let_def sz nn P0 create_prob_table_6 rl rows)
qed

section \<open>A grid size beyond the range of int\<close>

lemma wrap32_range: "- 2147483648 \<le> wrap32 x \<and> wrap32 x \<le> 2147483647"
proof -
  have "0 \<le> (x + 2147483648) mod 4294967296" "(x + 2147483648) mod 4294967296 < 4294967296"
    by simp_all
  then show ?thesis by (simp add: wrap32_def)
qed

lemma write_loop_result:
  "(for_each ys (\<lambda>j P. write_at P (k j) v) P = Inl OutOfBounds
      \<and> (\<exists>j\<in>set ys. \<not> (0 \<le> k j \<and> k j < int (length P))))
   \<or> (\<exists>P'. for_each ys (\<lambda>j P. write_at P (k j) v) P = Inr P' \<and> length P' = length P
      \<and> (\<forall>j\<in>set ys. 0 \<le> k j \<and> k j < int (length P)))"
proof (induction ys arbitrary: P)
  case Nil
  then show ?case by simp
next
  case (Cons j ys)
  show ?case
  proof (cases "0 \<le> k j \<and> k j < int (length P)")
    case False
    then have w: "write_at P (k j) v = Inl OutOfBounds"
      by (simp add: write_at_def)
    have "for_each (j # ys) (\<lambda>j P. write_at P (k j) v) P = Inl OutOfBounds"
      by (simp add: w)
    moreover have "\<exists>j\<in>set (j # ys). \<not> (0 \<le> k j \<and> k j < int (length P))"
      using False by simp
    ultimately show ?thesis by blast
  next
    case True
    then have w: "write_at P (k j) v = Inr (P[nat (k j) := v])"
      by (simp add: write_at_def)
    have step: "for_each (j # ys) (\<lambda>j P. write_at P (k j) v) P
        = for_each ys (\<lambda>j P. write_at P (k j) v) (P[nat (k j) := v])"
      by (simp add: w)
    have len: "length (P[nat (k j) := v]) = length P" by simp
    from Cons.IH [of "P[nat (k j) := v]"] True show ?thesis
      unfolding step len by auto
  qed
qed

lemma write_loops_fail:
  assumes "i \<in> set xs" and "j \<in> set ys"
    and "\<not> (0 \<le> k i j \<and> k i j < int (length P))"
  shows "for_each xs (\<lambda>i. for_each ys (\<lambda>j P. write_at P (k i j) v)) P = Inl OutOfBounds"
  using assms
proof (induction xs arbitrary: P)
  case Nil
  then show ?case by simp
next
  case (Cons x xs)
  from write_loop_result [of ys "k x" v P]
  consider (fail) "for_each ys (\<lambda>j P. write_at P (k x j) v) P = Inl OutOfBounds"
    | (ok) P' where "for_each ys (\<lambda>j P. write_at P (k x j) v) P = Inr P'"
      "length P' = length P" "\<forall>j\<in>set ys. 0 \<le> k x j \<and> k x j < int (length P)"
    by blast
  then show ?case
  proof cases
    case fail
    then show ?thesis by simp
  next
    case ok
    with Cons.prems have "i \<in> set xs" by auto
    from Cons.IH [OF this Cons.prems(2), of P'] Cons.prems(3) ok(1,2) show ?thesis
      by simp
  qed
qed

lemma wrap32_min_times: "wrap32 (- 2147483648 * m) = 0 \<or> wrap32 (- 2147483648 * m) = - 2147483648"
proof (cases "even m")
  case True
  then obtain k where "m = 2 * k" by (auto elim: evenE)
  then have "- 2147483648 * m + 2147483648 = 2147483648 + 4294967296 * (- k)"
    by simp
  then have "(- 2147483648 * m + 2147483648) mod 4294967296 = 2147483648"
    by (simp only: mod_mult_self2) simp
  then show ?thesis by (simp add: wrap32_def)
next
  case False
  then obtain k where "m = 2 * k + 1" by (auto elim: oddE)
  then have "- 2147483648 * m + 2147483648 = 0 + 4294967296 * (- k)"
    by simp
  then have "(- 2147483648 * m + 2147483648) mod 4294967296 = 0"
    by (simp only: mod_mult_self2) simp
  then show ?thesis by (simp add: wrap32_def)
qed

lemma linear_index_small:
  assumes "2 \<le> A" and "A < 2147483647" and "0 < s" and "s \<le> 2147483647"
  shows "linear_index (s mod (1 + A)) A (s div (1 + A)) D = s"
proof -
  let ?i = "s mod (1 + A)" and ?j = "s div (1 + A)"
  have mpos: "0 < 1 + A" using assms(1) by simp
  have i: "0 \<le> ?i" using mpos by (rule pos_mod_sign)
  have j0: "0 \<le> ?j"
    using assms(3) mpos by (simp add: pos_imp_zdiv_nonneg_iff)
  have split: "(1 + A) * ?j + ?i = s" by simp
  have nn: "0 \<le> (1 + A) * ?j"
    using j0 mpos by simp
  have le: "(1 + A) * ?j \<le> s"
    using split i by linarith
  have w1: "wrap32 (1 + A) = 1 + A"
    using assms(1,2) by (simp add: wrap32_id)
  have w2: "wrap32 ((1 + A) * ?j) = (1 + A) * ?j"
    using nn le assms(4) by (intro wrap32_id) simp_all
  have w3: "wrap32 ((1 + A) * ?j + ?i) = s"
    using assms(3,4) by (simp only: split) (simp add: wrap32_id)
  show ?thesis
    by (simp only: linear_index_def w1 w2 w3)
qed

lemma overflow_bad_cell:
  assumes "2 \<le> A" and "A \<le> 2147483647" and "1 \<le> D"
    and "2147483647 < (1 + A) * (1 + D)"
    and "0 \<le> wrap32 (wrap32 (1 + A) * wrap32 (1 + D))"
  shows "\<exists>i j. 0 \<le> i \<and> i \<le> A \<and> 0 \<le> j \<and> j \<le> D
    \<and> \<not> (0 \<le> linear_index i A j D
         \<and> linear_index i A j D < wrap32 (wrap32 (1 + A) * wrap32 (1 + D)))"
proof -
  define s where "s = wrap32 (wrap32 (1 + A) * wrap32 (1 + D))"
  have "\<exists>i j. 0 \<le> i \<and> i \<le> A \<and> 0 \<le> j \<and> j \<le> D
    \<and> \<not> (0 \<le> linear_index i A j D \<and> linear_index i A j D < s)"
  proof (cases "s = 0")
    case True
    have "linear_index 0 A 0 D = 0"
      by (simp add: linear_index_def wrap32_def)
    with True assms(1,3) show ?thesis
      by (intro exI [of _ 0]) simp
  next
    case False
    with assms(5) have pos: "0 < s" by (simp add: s_def)
    have A: "A < 2147483647"
    proof (rule ccontr)
      assume "\<not> A < 2147483647"
      with assms(2) have "A = 2147483647" by simp
      then have "wrap32 (1 + A) = - 2147483648"
        by (simp add: wrap32_def)
      with wrap32_min_times [of "wrap32 (1 + D)"] pos show False by (simp add: s_def)
    qed
    let ?i = "s mod (1 + A)" and ?j = "s div (1 + A)"
    have sz_le: "s \<le> 2147483647" using wrap32_range by (simp add: s_def)
    have mpos: "0 < 1 + A" using assms(1) by simp
    have "?i < 1 + A" using mpos by (rule pos_mod_bound)
    then have i: "0 \<le> ?i" "?i \<le> A"
      using pos_mod_sign [OF mpos, of s] by simp_all
    have j0: "0 \<le> ?j"
      using pos mpos by (simp add: pos_imp_zdiv_nonneg_iff)
    have split: "(1 + A) * ?j + ?i = s" by simp
    have lt: "s < (1 + A) * (1 + D)"
      using sz_le assms(4) by simp
    have "?j < 1 + D"
    proof (rule ccontr)
      assume "\<not> ?j < 1 + D"
      then have "(1 + A) * (1 + D) \<le> (1 + A) * ?j"
        using mpos by (intro mult_left_mono) simp_all
      with split i(1) lt show False by linarith
    qed
    then have jD: "?j \<le> D" by simp
    have "linear_index ?i A ?j D = s"
      by (rule linear_index_small [OF assms(1) A pos sz_le])
    with i j0 jD show ?thesis
      by (intro exI [of _ ?i] exI [of _ ?j]) simp
  qed
  then show ?thesis by (simp only: s_def)
qed

lemma init_grid_overflow:
  assumes "2 \<le> A" and "A \<le> 2147483647" and "1 \<le> D"
    and "2147483647 < (1 + A) * (1 + D)"
    and "0 \<le> wrap32 (wrap32 (1 + A) * wrap32 (1 + D))"
  shows "init_grid A D (replicate (nat (wrap32 (wrap32 (1 + A) * wrap32 (1 + D)))) 0)
    = Inl OutOfBounds"
proof -
  let ?sz = "wrap32 (wrap32 (1 + A) * wrap32 (1 + D))"
  from overflow_bad_cell [OF assms] obtain i j where
    ij: "0 \<le> i" "i \<le> A" "0 \<le> j" "j \<le> D"
    "\<not> (0 \<le> linear_index i A j D \<and> linear_index i A j D < ?sz)"
    by blast
  have "\<not> (0 \<le> linear_index i A j D
      \<and> linear_index i A j D < int (length (replicate (nat ?sz) (0::real))))"
    using ij(5) assms(5) by simp
  from write_loops_fail [where k = "\<lambda>i j. linear_index i A j D" and xs = "[0..A]"
      and ys = "[0..D]", OF _ _ this, of unused_value] ij(1-4)
  show ?thesis
    by (simp add: init_grid_def)
qed

lemma main_overflow:
  assumes "2 \<le> wrap32 arg1" and "1 \<le> wrap32 arg2"
    and "2147483647 < (1 + wrap32 arg1) * (1 + wrap32 arg2)"
    and "argc = 3 \<or> (argc = 4 \<and> wrap32 arg3 < 1)"
  shows "main argc arg1 arg2 arg3 gens = Some (Abort LengthError)
    \<or> main argc arg1 arg2 arg3 gens = Some (Abort OutOfBounds)"
proof -
  let ?A = "wrap32 arg1" and ?D = "wrap32 arg2"
  let ?sz = "wrap32 (wrap32 (1 + ?A) * wrap32 (1 + ?D))"
  have A: "?A \<le> 2147483647" using wrap32_range by blast
  show ?thesis
  proof (cases "?sz < 0")
    case True
    with assms(1,2,4) show ?thesis
      by (auto simp: main_def Let_def)
  next
    case False
    then have "0 \<le> ?sz" by simp
    from init_grid_overflow [OF assms(1) A assms(2,3) this] False assms(1,2,4) show ?thesis
      by (auto simp: main_def Let_def)
  qed
qed

section \<open>The printed grid\<close>

lemma main_emits_grid:
  assumes "main argc arg1 arg2 arg3 gens = Some (Exit 0 (Grid rows))"
  shows "(argc = 3 \<or> (argc = 4 \<and> wrap32 arg3 < 1))
    \<and> 2 \<le> wrap32 arg1 \<and> 1 \<le> wrap32 arg2
    \<and> (1 + wrap32 arg1) * (1 + wrap32 arg2) \<le> 2147483647
    \<and> rows = map (\<lambda>a. map (\<lambda>d. win_prob a d) [0..wrap32 arg2]) [0..wrap32 arg1]"
proof -
  let ?A = "wrap32 arg1" and ?D = "wrap32 arg2"
  have argc: "argc = 3 \<or> argc = 4"
    using assms by (auto simp: main_def Let_def split: if_splits)
  have AD: "2 \<le> ?A" "1 \<le> ?D"
    using assms argc by (auto simp: main_def Let_def split: if_splits)
  have N: "argc = 3 \<or> (argc = 4 \<and> wrap32 arg3 < 1)"
    using assms argc AD by (auto simp: main_def Let_def split: if_splits)
  have sz: "(1 + ?A) * (1 + ?D) \<le> 2147483647"
  proof (rule ccontr)
    assume "\<not> (1 + ?A) * (1 + ?D) \<le> 2147483647"
    then have "2147483647 < (1 + ?A) * (1 + ?D)" by simp
    from main_overflow [OF AD this N, of gens] assms show False by simp
  qed
  from dp_mode_run [OF AD sz N, of gens] assms N AD sz show ?thesis by simp
qed

lemma nth_upto0: "0 \<le> k \<Longrightarrow> k \<le> n \<Longrightarrow> [0..n] ! nat k = k"
  by (simp add: nth_upto)

lemma table_cell:
  assumes "0 \<le> a" and "a \<le> A" and "0 \<le> d" and "d \<le> D"
  shows "map (\<lambda>a. map (\<lambda>d. f a d) [0..D]) [0..A] ! nat a ! nat d = f a d"
  using assms by (simp add: nth_upto0)

lemma table_size:
  assumes "0 \<le> A" and "0 \<le> D"
  shows "length (map (\<lambda>a. map (\<lambda>d. f a d) [0..D]) [0..A]) = nat (A + 1)"
    and "\<forall>row\<in>set (map (\<lambda>a. map (\<lambda>d. f a d) [0..D]) [0..A]). length row = nat (D + 1)"
  using assms by auto


lemma win_prob_2_1: "win_prob 2 1 = 5 / 12"
proof -
  have row: "table_6 ! config_index 2 1 = [0, 0, 21 / 36, 15 / 36, 0]"
    by (simp add: config_index_cases table_6_def)
  have "(2::int) \<le> 2" "(1::int) \<le> 1" by simp_all
  from win_prob_single [OF this row] show ?thesis
    by (simp add: win_prob_boundary)
qed

lemma upto_small: "[0..2] = [0, 1, 2::int]" "[0..1] = [0, 1::int]"
  by (simp_all add: upto.simps)

lemma grid_2_1:
  "map (\<lambda>a. map (\<lambda>d. win_prob a d) [0..1]) [0..2] = [[0, 0], [0, 0], [1, 5 / 12]]"
  by (simp add: upto_small win_prob_boundary win_prob_2_1)

lemma wrap32_small: "wrap32 0 = 0" "wrap32 1 = 1" "wrap32 2 = 2"
  by (simp_all add: wrap32_def)

lemma main_2_1:
  assumes "argc = 3 \<or> (argc = 4 \<and> wrap32 arg3 < 1)"
  shows "main argc 2 1 arg3 gens = Some (Exit 0 (Grid [[0, 0], [0, 0], [1, 5 / 12]]))"
  using dp_mode_run [of 2 1 argc arg3 gens] assms
  by (simp add: wrap32_small grid_2_1)

text \<open>
  Claim C2.  When \<open>main\<close> prints the grid, the value of every interior cell \<open>(a, d)\<close>,
  \<open>2 \<le> a \<le> A\<close> and \<open>1 \<le> d \<le> D\<close>, is the sum, over the outcome deltas of non-zero
  probability in the row of the dice configuration
  \<open>(attacker_dice a, defender_dice d) = (max (min (a - 1) 3) 0, max (min d 2) 0)\<close>, of the
  probability of the delta times the printed value of the cell \<open>(a + delta_a, d + delta_d)\<close>.
\<close>

theorem grid_satisfies_recurrence:
  assumes "main argc arg1 arg2 arg3 gens = Some (Exit 0 (Grid rows))"
    and "create_prob_table 6 = Some (dicetuples, transitions, probstable)"
    and "A = wrap32 arg1" and "D = wrap32 arg2"
    and "2 \<le> a" and "a \<le> A" and "1 \<le> d" and "d \<le> D"
    and "q = lookup0 (index_map dicetuples) (attacker_dice a, defender_dice d)"
  shows "rows ! nat a ! nat d
      = sum_list (map (\<lambda>i. probstable ! q ! i
                          * rows ! nat (a + fst (transitions ! i)) ! nat (d + snd (transitions ! i)))
                   (filter (\<lambda>i. probstable ! q ! i \<noteq> 0) [0..<length transitions]))
    \<and> attacker_dice a = max (min (a - 1) 3) 0 \<and> defender_dice d = max (min d 2) 0"
proof -
  from assms(2) have tb: "dicetuples = dicetuples_T" "transitions = transitions_P"
    "probstable = table_6"
    by (simp_all add: create_prob_table_6)
  from main_emits_grid [OF assms(1)] assms(3,4)
  have rows: "rows = map (\<lambda>a. map (\<lambda>d. win_prob a d) [0..D]) [0..A]"
    by simp
  have q: "table_6 ! q = table_6 ! config_index a d"
    by (simp add: assms(9) tb config_index_def)
  have cell: "rows ! nat x ! nat y = win_prob x y" if "0 \<le> x" "x \<le> A" "0 \<le> y" "y \<le> D" for x y
    unfolding rows by (rule table_cell [OF that])
  have c0: "rows ! nat a ! nat d = win_prob a d"
    using assms(5-8) by (intro cell) simp_all
  have c1: "rows ! nat (a - 1) ! nat d = win_prob (a - 1) d"
    using assms(5-8) by (intro cell) simp_all
  have c2: "rows ! nat a ! nat (d - 1) = win_prob a (d - 1)"
    using assms(5-8) by (intro cell) simp_all
  have c3: "rows ! nat (a - 2) ! nat d = win_prob (a - 2) d"
    using assms(5-8) by (intro cell) simp_all
  have c4: "rows ! nat (a - 1) ! nat (d - 1) = win_prob (a - 1) (d - 1)"
    using assms(5-8) by (intro cell) simp_all
  have c5: "2 \<le> d \<Longrightarrow> rows ! nat a ! nat (d - 2) = win_prob a (d - 2)"
    using assms(5-8) by (intro cell) simp_all
  have single: "rows ! nat a ! nat d
      = sum_list (map (\<lambda>i. table_6 ! q ! i
                 * rows ! nat (a + fst (transitions_P ! i)) ! nat (d + snd (transitions_P ! i)))
          (filter (\<lambda>i. table_6 ! q ! i \<noteq> 0) [0..<length transitions_P]))"
    if row: "table_6 ! config_index a d = [0, 0, p, r, 0]" and nz: "p \<noteq> 0" "r \<noteq> 0" for p r
    using nz
    by (simp add: q row length_transitions_P upt5 transitions_P_def c0 c1 c2
        win_prob_single [OF assms(5,7) row])
  have double: "rows ! nat a ! nat d
      = sum_list (map (\<lambda>i. table_6 ! q ! i
                 * rows ! nat (a + fst (transitions_P ! i)) ! nat (d + snd (transitions_P ! i)))
          (filter (\<lambda>i. table_6 ! q ! i \<noteq> 0) [0..<length transitions_P]))"
    if row: "table_6 ! config_index a d = [p, r, 0, 0, s]" and nz: "p \<noteq> 0" "r \<noteq> 0" "s \<noteq> 0"
      and d2: "2 \<le> d" for p r s
    using nz
    by (simp add: q row length_transitions_P upt5 transitions_P_def c0 c3 c4 c5 [OF d2]
        win_prob_double [OF assms(5,7) row])
  from assms(5) have "1 \<le> a" by simp
  from this assms(7) have "rows ! nat a ! nat d
      = sum_list (map (\<lambda>i. table_6 ! q ! i
                 * rows ! nat (a + fst (transitions_P ! i)) ! nat (d + snd (transitions_P ! i)))
          (filter (\<lambda>i. table_6 ! q ! i \<noteq> 0) [0..<length transitions_P]))"
  proof (cases rule: row_cases)
    case 1
    with assms(5) show ?thesis by simp
  next
    case 2
    show ?thesis by (rule single [OF 2(3)]) simp_all
  next
    case 3
    show ?thesis by (rule single [OF 3(3)]) simp_all
  next
    case 4
    show ?thesis by (rule single [OF 4(3)]) simp_all
  next
    case 5
    show ?thesis by (rule single [OF 5(3)]) simp_all
  next
    case 6
    show ?thesis by (rule double [OF 6(3) _ _ _ 6(2)]) simp_all
  next
    case 7
    show ?thesis by (rule double [OF 7(3) _ _ _ 7(2)]) simp_all
  qed
  moreover have "attacker_dice a = max (min (a - 1) 3) 0 \<and> defender_dice d = max (min d 2) 0"
    by (simp add: attacker_dice_def defender_dice_def Let_def min_def max_def)
  ultimately show ?thesis by (simp add: tb)
qed

theorem grid_satisfies_recurrence_witness:
  "main 3 2 1 0 (\<lambda>i n. 1) = Some (Exit 0 (Grid [[0, 0], [0, 0], [1, 5 / 12]]))
   \<and> [[0, 0], [0, 0], [1, 5 / 12 :: real]] ! nat 2 ! nat 1
      = sum_list (map (\<lambda>i. table_6 ! 0 ! i
            * [[0, 0], [0, 0], [1, 5 / 12]] ! nat (2 + fst (transitions_P ! i))
                ! nat (1 + snd (transitions_P ! i)))
          (filter (\<lambda>i. table_6 ! 0 ! i \<noteq> 0) [0..<length transitions_P]))"
proof -
  have m: "main 3 2 1 0 (\<lambda>i n. 1) = Some (Exit 0 (Grid [[0, 0], [0, 0], [1, 5 / 12]]))"
    by (rule main_2_1) simp
  have h: "(2::int) = wrap32 2" "(1::int) = wrap32 1" "(2::int) \<le> 2" "(1::int) \<le> 1"
    by (simp_all add: wrap32_small)
  have q: "(0::nat) = lookup0 (index_map dicetuples_T) (attacker_dice 2, defender_dice 1)"
    by (simp add: attacker_dice_def defender_dice_def lookup0_def index_map_T)
  from grid_satisfies_recurrence [OF m create_prob_table_6 h(1,2) h(3) h(3) h(4) h(4) q] m
  show ?thesis by blast
qed


text \<open>
  Claim C3, as the code has it.  For \<open>A \<ge> 2\<close> and \<open>D \<ge> 1\<close> whose grid size
  \<open>(A+1)*(D+1)\<close> fits the \<open>int\<close> in which \<open>main\<close> computes it, the relaxation loop
  returns: the first pass resolves all \<open>(A-1)*D\<close> interior cells, the second pass resolves
  none and ends the loop, so \<open>elems_total = (A-1)*D\<close>, the branch "DP calculation failed"
  is not taken, and the grid of \<open>A+1\<close> rows and \<open>D+1\<close> columns is printed with exit
  status 0.
\<close>

theorem relaxation_completes:
  assumes "2 \<le> A" and "1 \<le> D" and "(1 + A) * (1 + D) \<le> 2147483647"
    and "A = wrap32 arg1" and "D = wrap32 arg2"
    and "argc = 3 \<or> (argc = 4 \<and> wrap32 arg3 < 1)"
    and "create_prob_table 6 = Some (dicetuples, transitions, probstable)"
  shows "\<exists>P0 P' rows.
      init_grid A D (replicate (nat (wrap32 (wrap32 (1 + A) * wrap32 (1 + D)))) 0) = Inr P0
    \<and> relax A D dicetuples transitions probstable P0 0 0 = Some (Inr (P', (A - 1) * D, 2))
    \<and> main argc arg1 arg2 arg3 gens = Some (Exit 0 (Grid rows))
    \<and> length rows = nat (A + 1) \<and> (\<forall>row\<in>set rows. length row = nat (D + 1))"
proof -
  from assms(7) have tb: "dicetuples = dicetuples_T" "transitions = transitions_P"
    "probstable = table_6"
    by (simp_all add: create_prob_table_6)
  from assms(1,2) have A: "0 \<le> A" "1 \<le> A" and D: "0 \<le> D" by simp_all
  note sz = size_exact [OF A(1) D assms(3)]
  from init_grid_solved [OF A(2) D assms(3)] obtain P0 where
    P0: "init_grid A D (replicate (nat ((1 + A) * (1 + D))) 0) = Inr P0"
    and g0: "grid_is A D (solved D 1 0) P0"
    by blast
  from relax_solved [OF assms(1,2) g0] obtain P' where
    rl: "relax A D dicetuples_T transitions_P table_6 P0 0 0 = Some (Inr (P', (A - 1) * D, 2))"
    by blast
  let ?rows = "map (\<lambda>a. map (\<lambda>d. win_prob a d) [0..D]) [0..A]"
  have m: "main argc arg1 arg2 arg3 gens = Some (Exit 0 (Grid ?rows))"
    using dp_mode_run [of arg1 arg2 argc arg3 gens] assms(1-6) by simp
  from P0 rl m table_size [OF A(1) D, of win_prob] show ?thesis
    unfolding sz tb by blast
qed

theorem relaxation_completes_witness:
  "\<exists>P0 P' rows.
      init_grid 2 1 (replicate (nat (wrap32 (wrap32 (1 + 2) * wrap32 (1 + 1)))) 0) = Inr P0
    \<and> relax 2 1 dicetuples_T transitions_P table_6 P0 0 0 = Some (Inr (P', (2 - 1) * 1, 2))
    \<and> main 3 2 1 0 (\<lambda>i n. 1) = Some (Exit 0 (Grid rows))
    \<and> length rows = nat (2 + 1)"
proof -
  have h: "(2::int) \<le> 2" "(1::int) \<le> 1" "(1 + 2) * (1 + 1) \<le> (2147483647::int)"
    "(2::int) = wrap32 2" "(1::int) = wrap32 1"
    "(3::int) = 3 \<or> ((3::int) = 4 \<and> wrap32 0 < 1)"
    by (simp_all add: wrap32_small)
  from relaxation_completes [OF h create_prob_table_6, of "\<lambda>i n. 1"] show ?thesis
    by blast
qed

text \<open>
  The bound is needed: \<open>A = 65535\<close> and \<open>D = 32767\<close> pass the check \<open>A >= 2\<close>, \<open>D >= 1\<close>,
  but \<open>(1 + A) * (1 + D) = 2^31\<close> does not fit an \<open>int\<close>; the size wraps to a negative
  number, the constructor of the vector throws, and no grid is printed.
\<close>

theorem relaxation_overflow_counterexample:
  "main 3 65535 32767 0 (\<lambda>i n. 1) = Some (Abort LengthError)"
  by (simp add: main_def wrap32_def)

text \<open>
  Claim C4.  In the grid that \<open>main\<close> prints, the cells \<open>(0, d)\<close> and \<open>(1, d)\<close> hold 0 for
  every \<open>d\<close> in \<open>[0, D]\<close> (so also the cell \<open>(1, 0)\<close>), and the cells \<open>(a, 0)\<close> hold 1 for
  every \<open>a\<close> in \<open>[2, A]\<close>.  These values are already in the grid \<open>P0\<close> that \<open>init_grid\<close>
  returns, which is the grid the relaxation loop starts from.
\<close>

theorem boundary_cells:
  assumes "main argc arg1 arg2 arg3 gens = Some (Exit 0 (Grid rows))"
    and "A = wrap32 arg1" and "D = wrap32 arg2" and "0 \<le> d" and "d \<le> D"
    and "create_prob_table 6 = Some (dicetuples, transitions, probstable)"
  shows "rows ! 0 ! nat d = 0 \<and> rows ! 1 ! nat d = 0
    \<and> (2 \<le> a \<and> a \<le> A \<longrightarrow> rows ! nat a ! 0 = 1)
    \<and> (\<exists>P0 P' t p.
          init_grid A D (replicate (nat (wrap32 (wrap32 (1 + A) * wrap32 (1 + D)))) 0) = Inr P0
        \<and> P0 ! nat (linear_index 0 A d D) = 0 \<and> P0 ! nat (linear_index 1 A d D) = 0
        \<and> (2 \<le> a \<and> a \<le> A \<longrightarrow> P0 ! nat (linear_index a A 0 D) = 1)
        \<and> relax A D dicetuples transitions probstable P0 0 0 = Some (Inr (P', t, p))
        \<and> grid_rows A D P' = Inr rows)"
proof -
  from assms(6) have tb: "dicetuples = dicetuples_T" "transitions = transitions_P"
    "probstable = table_6"
    by (simp_all add: create_prob_table_6)
  from main_emits_grid [OF assms(1)] assms(2,3)
  have AD: "2 \<le> A" "1 \<le> D" and szb: "(1 + A) * (1 + D) \<le> 2147483647"
    and rows: "rows = map (\<lambda>a. map (\<lambda>d. win_prob a d) [0..D]) [0..A]"
    by simp_all
  from AD have A: "0 \<le> A" "1 \<le> A" and D: "0 \<le> D" by simp_all
  note sz = size_exact [OF A(1) D szb]
  have cell: "rows ! nat x ! nat y = win_prob x y" if "0 \<le> x" "x \<le> A" "0 \<le> y" "y \<le> D" for x y
    unfolding rows by (rule table_cell [OF that])
  have r0: "rows ! 0 ! nat d = 0"
    using cell [of 0 d] A assms(4,5) by (simp add: win_prob_boundary)
  have r1: "rows ! 1 ! nat d = 0"
    using cell [of 1 d] A assms(4,5) by (simp add: win_prob_boundary)
  have r2: "rows ! nat a ! 0 = 1" if "2 \<le> a \<and> a \<le> A"
    using cell [of a 0] that D by (simp add: win_prob_boundary)
  from init_grid_solved [OF A(2) D szb] obtain P0 where
    P0: "init_grid A D (replicate (nat ((1 + A) * (1 + D))) 0) = Inr P0"
    and g0: "grid_is A D (solved D 1 0) P0"
    by blast
  from relax_solved [OF AD g0] obtain P' where
    rl: "relax A D dicetuples_T transitions_P table_6 P0 0 0 = Some (Inr (P', (A - 1) * D, 2))"
    and g': "grid_is A D (solved D (A + 1) 0) P'"
    by blast
  have gr: "grid_rows A D P' = Inr rows"
    by (simp only: grid_rows_ok [OF g'] solved_all rows)
  have p0: "P0 ! nat (linear_index 0 A d D) = 0"
    using grid_is_cell [OF g0 _ A(1) assms(4,5)] by (simp add: solved_def win_prob_boundary)
  have p1: "P0 ! nat (linear_index 1 A d D) = 0"
    using grid_is_cell [OF g0 _ A(2) assms(4,5)] by (simp add: solved_def win_prob_boundary)
  have p2: "P0 ! nat (linear_index a A 0 D) = 1" if "2 \<le> a \<and> a \<le> A"
    using grid_is_cell [OF g0, of a 0] that D by (simp add: solved_def win_prob_boundary)
  from r0 r1 r2 P0 p0 p1 p2 rl gr show ?thesis
    unfolding sz tb by blast
qed

theorem boundary_cells_witness:
  "main 3 2 1 0 (\<lambda>i n. 1) = Some (Exit 0 (Grid [[0, 0], [0, 0], [1, 5 / 12]]))
   \<and> [[0, 0], [0, 0], [1, 5 / 12 :: real]] ! 0 ! nat 0 = 0
   \<and> [[0, 0], [0, 0], [1, 5 / 12 :: real]] ! 1 ! nat 0 = 0
   \<and> [[0, 0], [0, 0], [1, 5 / 12 :: real]] ! nat 2 ! 0 = 1"
proof -
  have m: "main 3 2 1 0 (\<lambda>i n. 1) = Some (Exit 0 (Grid [[0, 0], [0, 0], [1, 5 / 12]]))"
    by (rule main_2_1) simp
  have h: "(2::int) = wrap32 2" "(1::int) = wrap32 1" "(0::int) \<le> 0" "(0::int) \<le> 1"
    by (simp_all add: wrap32_small)
  from boundary_cells [OF m h create_prob_table_6, of 2] m show ?thesis
    by simp
qed

text \<open>
  Claim C6, as the code has it.  An argument count other than 3 and 4 ends the run with
  the usage line and exit status 1; with a valid count, \<open>A < 2\<close> or \<open>D < 1\<close> ends it with
  the diagnostic "requiring: A >= 2 and D >= 1" and exit status 1; in both cases nothing
  is computed and no grid or estimate is printed.  An argument \<open>N < 1\<close> is not rejected:
  the program runs in DP mode exactly as it does when \<open>N\<close> is absent.
\<close>

theorem main_rejects_bad_arguments:
  "(argc \<noteq> 3 \<and> argc \<noteq> 4 \<longrightarrow> main argc arg1 arg2 arg3 gens = Some (Exit 1 Usage))
   \<and> ((argc = 3 \<or> argc = 4) \<and> (wrap32 arg1 < 2 \<or> wrap32 arg2 < 1)
        \<longrightarrow> main argc arg1 arg2 arg3 gens = Some (Exit 1 Requiring))
   \<and> (2 \<le> wrap32 arg1 \<and> 1 \<le> wrap32 arg2 \<and> wrap32 arg3 < 1
        \<longrightarrow> main 4 arg1 arg2 arg3 gens = main 3 arg1 arg2 arg3 gens)"
  by (auto simp: main_def Let_def)

theorem main_rejects_bad_arguments_witness:
  "main 2 5 5 0 (\<lambda>i n. 1) = Some (Exit 1 Usage)
   \<and> main 4 1 5 7 (\<lambda>i n. 1) = Some (Exit 1 Requiring)
   \<and> main 4 2 1 0 (\<lambda>i n. 1) = main 3 2 1 0 (\<lambda>i n. 1)"
  using main_rejects_bad_arguments [of 2 5 5 0 "\<lambda>i n. 1"]
    main_rejects_bad_arguments [of 4 1 5 7 "\<lambda>i n. 1"]
    main_rejects_bad_arguments [of 4 2 1 0 "\<lambda>i n. 1"]
  by (simp add: wrap32_def)

text \<open>
  The claim as stated fails for \<open>N\<close> present and smaller than 1: the run with the
  arguments \<open>2 1 0\<close> prints the grid and exits with status 0.
\<close>

theorem main_accepts_nonpositive_samples_counterexample:
  "main 4 2 1 0 (\<lambda>i n. 1) = Some (Exit 0 (Grid [[0, 0], [0, 0], [1, 5 / 12]]))"
  by (rule main_2_1) (simp add: wrap32_small)

section \<open>Monotonicity of the win probability\<close>

lemma eq_3_1: "win_prob 3 1 = 91 / 216 * win_prob 2 1 + 125 / 216"
proof -
  have row: "table_6 ! config_index 3 1 = [0, 0, 91 / 216, 125 / 216, 0]"
    by (simp add: config_index_cases table_6_def)
  have "(2::int) \<le> 3" "(1::int) \<le> 1" by simp_all
  from win_prob_single [OF this row] show ?thesis
    by (simp add: win_prob_boundary)
qed

lemma eq_a_1:
  assumes "4 \<le> a"
  shows "win_prob a 1 = 441 / 1296 * win_prob (a - 1) 1 + 855 / 1296"
proof -
  have row: "table_6 ! config_index a 1 = [0, 0, 441 / 1296, 855 / 1296, 0]"
    using assms by (simp add: config_index_cases table_6_def)
  have "2 \<le> a" "(1::int) \<le> 1" using assms by simp_all
  from win_prob_single [OF this row] assms show ?thesis
    by (simp add: win_prob_boundary)
qed

lemma eq_2_d:
  assumes "2 \<le> d"
  shows "win_prob 2 d = 55 / 216 * win_prob 2 (d - 1)"
proof -
  have row: "table_6 ! config_index 2 d = [0, 0, 161 / 216, 55 / 216, 0]"
    using assms by (simp add: config_index_cases table_6_def)
  have "(2::int) \<le> 2" "1 \<le> d" using assms by simp_all
  from win_prob_single [OF this row] show ?thesis
    by (simp add: win_prob_boundary)
qed

lemma eq_3_d:
  assumes "2 \<le> d"
  shows "win_prob 3 d = 420 / 1296 * win_prob 2 (d - 1) + 295 / 1296 * win_prob 3 (d - 2)"
proof -
  have row: "table_6 ! config_index 3 d = [581 / 1296, 420 / 1296, 0, 0, 295 / 1296]"
    using assms by (simp add: config_index_cases table_6_def)
  have "(2::int) \<le> 3" "1 \<le> d" using assms by simp_all
  from win_prob_double [OF this row] show ?thesis
    by (simp add: win_prob_boundary)
qed

lemma eq_a_d:
  assumes "4 \<le> a" and "2 \<le> d"
  shows "win_prob a d = 2275 / 7776 * win_prob (a - 2) d
    + 2611 / 7776 * win_prob (a - 1) (d - 1) + 2890 / 7776 * win_prob a (d - 2)"
proof -
  have row: "table_6 ! config_index a d = [2275 / 7776, 2611 / 7776, 0, 0, 2890 / 7776]"
    using assms by (simp add: config_index_cases table_6_def)
  have "2 \<le> a" "1 \<le> d" using assms by simp_all
  from win_prob_double [OF this row] show ?thesis
    by simp
qed


lemma win_prob_mono_aux:
  "0 \<le> a \<Longrightarrow> 0 \<le> d \<Longrightarrow> nat (a + d) = n
    \<Longrightarrow> win_prob a d \<le> win_prob (a + 1) d \<and> win_prob a (d + 1) \<le> win_prob a d"
proof (induction n arbitrary: a d rule: less_induct)
  case (less n)
  note a0 = \<open>0 \<le> a\<close> and d0 = \<open>0 \<le> d\<close>
  have ih: "win_prob x y \<le> win_prob (x + 1) y \<and> win_prob x (y + 1) \<le> win_prob x y"
    if "0 \<le> x" "0 \<le> y" "x + y < a + d" for x y
  proof -
    have "nat (x + y) < n" using that less.prems by simp
    from less.IH [OF this that(1,2) refl] show ?thesis .
  qed
  have lo: "0 \<le> win_prob x y" and hi: "win_prob x y \<le> 1" for x y
    using win_prob_bounds [of x y] by simp_all
  have M1: "win_prob a d \<le> win_prob (a + 1) d"
  proof -
    from a0 d0 consider "d = 0" | "a = 0" "1 \<le> d" | "a = 1" "1 \<le> d" | "a = 2" "d = 1"
      | "a = 2" "2 \<le> d" | "a = 3" "d = 1" | "a = 3" "2 \<le> d" | "4 \<le> a" "d = 1"
      | "4 \<le> a" "2 \<le> d"
      by linarith
    then show ?thesis
    proof cases
      case 1
      show ?thesis
      proof (cases "a = 0")
        case True
        with 1 show ?thesis by (simp add: win_prob_boundary)
      next
        case False
        show ?thesis
        proof (cases "a = 1")
          case True
          with 1 show ?thesis by (simp add: win_prob_boundary)
        next
          case False
          with \<open>a \<noteq> 0\<close> a0 have "2 \<le> a" by simp
          with 1 show ?thesis by (simp add: win_prob_boundary)
        qed
      qed
    next
      case 2
      then show ?thesis by (simp add: win_prob_boundary)
    next
      case 3
      with lo [of 2 d] show ?thesis by (simp add: win_prob_boundary)
    next
      case 4
      then show ?thesis by (simp add: eq_3_1 win_prob_2_1)
    next
      case 5
      have e3: "win_prob 3 d = 420 / 1296 * win_prob 2 (d - 1) + 295 / 1296 * win_prob 3 (d - 2)"
        by (rule eq_3_d [OF 5(2)])
      have e2: "win_prob 2 d = 55 / 216 * win_prob 2 (d - 1)"
        by (rule eq_2_d [OF 5(2)])
      from e2 e3 lo [of 2 "d - 1"] lo [of 3 "d - 2"] have "win_prob 2 d \<le> win_prob 3 d"
        by linarith
      with 5 show ?thesis by simp
    next
      case 6
      have e4: "win_prob 4 1 = 441 / 1296 * win_prob 3 1 + 855 / 1296"
        using eq_a_1 [of 4] by simp
      from e4 hi [of 3 1] have "win_prob 3 1 \<le> win_prob 4 1"
        by linarith
      with 6 show ?thesis by simp
    next
      case 7
      have e3: "win_prob 3 d = 420 / 1296 * win_prob 2 (d - 1) + 295 / 1296 * win_prob 3 (d - 2)"
        by (rule eq_3_d [OF 7(2)])
      have e4: "win_prob 4 d = 2275 / 7776 * win_prob 2 d
          + 2611 / 7776 * win_prob 3 (d - 1) + 2890 / 7776 * win_prob 4 (d - 2)"
        using eq_a_d [of 4 d] 7(2) by simp
      have i1: "win_prob 2 (d - 1) \<le> win_prob 3 (d - 1)"
        using ih [of 2 "d - 1"] 7 by simp
      have i2: "win_prob 3 (d - 2) \<le> win_prob 4 (d - 2)"
        using ih [of 3 "d - 2"] 7 by simp
      from e3 e4 i1 i2 lo [of 2 d] lo [of 3 "d - 1"] lo [of 4 "d - 2"]
      have "win_prob 3 d \<le> win_prob 4 d"
        by linarith
      with 7 show ?thesis by simp
    next
      case 8
      have e: "win_prob a 1 = 441 / 1296 * win_prob (a - 1) 1 + 855 / 1296"
        by (rule eq_a_1 [OF 8(1)])
      have e': "win_prob (a + 1) 1 = 441 / 1296 * win_prob a 1 + 855 / 1296"
        using eq_a_1 [of "a + 1"] 8(1) by simp
      have i1: "win_prob (a - 1) 1 \<le> win_prob a 1"
        using ih [of "a - 1" 1] 8 by simp
      from e e' i1 have "win_prob a 1 \<le> win_prob (a + 1) 1"
        by linarith
      with 8 show ?thesis by simp
    next
      case 9
      have e: "win_prob a d = 2275 / 7776 * win_prob (a - 2) d
          + 2611 / 7776 * win_prob (a - 1) (d - 1) + 2890 / 7776 * win_prob a (d - 2)"
        by (rule eq_a_d [OF 9])
      have e': "win_prob (a + 1) d = 2275 / 7776 * win_prob (a - 1) d
          + 2611 / 7776 * win_prob a (d - 1) + 2890 / 7776 * win_prob (a + 1) (d - 2)"
        using eq_a_d [of "a + 1" d] 9 by simp
      have i1: "win_prob (a - 2) d \<le> win_prob (a - 1) d"
        using ih [of "a - 2" d] 9 by simp
      have i2: "win_prob (a - 1) (d - 1) \<le> win_prob a (d - 1)"
        using ih [of "a - 1" "d - 1"] 9 by simp
      have i3: "win_prob a (d - 2) \<le> win_prob (a + 1) (d - 2)"
        using ih [of a "d - 2"] 9 by simp
      from e e' i1 i2 i3 show ?thesis
        by linarith
    qed
  qed
  have M2: "win_prob a (d + 1) \<le> win_prob a d"
  proof -
    from a0 d0 consider "a \<le> 1" | "2 \<le> a" "d = 0" | "a = 2" "1 \<le> d" | "a = 3" "d = 1"
      | "a = 3" "2 \<le> d" | "4 \<le> a" "d = 1" | "4 \<le> a" "2 \<le> d"
      by linarith
    then show ?thesis
    proof cases
      case 1
      then show ?thesis by (simp add: win_prob_boundary)
    next
      case 2
      with hi [of a 1] show ?thesis by (simp add: win_prob_boundary)
    next
      case 3
      have "win_prob 2 (d + 1) = 55 / 216 * win_prob 2 d"
        using eq_2_d [of "d + 1"] 3(2) by simp
      with lo [of 2 d] have "win_prob 2 (d + 1) \<le> win_prob 2 d"
        by linarith
      with 3 show ?thesis by simp
    next
      case 4
      have "win_prob 3 2 = 420 / 1296 * win_prob 2 1 + 295 / 1296"
        using eq_3_d [of 2] by (simp add: win_prob_boundary)
      then have "win_prob 3 2 \<le> win_prob 3 1"
        by (simp add: eq_3_1 win_prob_2_1)
      with 4 show ?thesis by simp
    next
      case 5
      have e: "win_prob 3 d = 420 / 1296 * win_prob 2 (d - 1) + 295 / 1296 * win_prob 3 (d - 2)"
        by (rule eq_3_d [OF 5(2)])
      have e': "win_prob 3 (d + 1) = 420 / 1296 * win_prob 2 d + 295 / 1296 * win_prob 3 (d - 1)"
        using eq_3_d [of "d + 1"] 5(2) by simp
      have i1: "win_prob 2 d \<le> win_prob 2 (d - 1)"
        using ih [of 2 "d - 1"] 5 by simp
      have i2: "win_prob 3 (d - 1) \<le> win_prob 3 (d - 2)"
        using ih [of 3 "d - 2"] 5 by simp
      from e e' i1 i2 have "win_prob 3 (d + 1) \<le> win_prob 3 d"
        by linarith
      with 5 show ?thesis by simp
    next
      case 6
      have e: "win_prob a 1 = 441 / 1296 * win_prob (a - 1) 1 + 855 / 1296"
        by (rule eq_a_1 [OF 6(1)])
      have e': "win_prob a 2 = 2275 / 7776 * win_prob (a - 2) 2
          + 2611 / 7776 * win_prob (a - 1) 1 + 2890 / 7776"
        using eq_a_d [of a 2] 6(1) by (simp add: win_prob_boundary)
      have i1: "win_prob (a - 2) 2 \<le> win_prob (a - 2) 1"
        using ih [of "a - 2" 1] 6 by simp
      have i2: "win_prob (a - 2) 1 \<le> win_prob (a - 1) 1"
        using ih [of "a - 2" 1] 6 by simp
      from e e' i1 i2 hi [of "a - 1" 1] have "win_prob a 2 \<le> win_prob a 1"
        by linarith
      with 6 show ?thesis by simp
    next
      case 7
      have e: "win_prob a d = 2275 / 7776 * win_prob (a - 2) d
          + 2611 / 7776 * win_prob (a - 1) (d - 1) + 2890 / 7776 * win_prob a (d - 2)"
        by (rule eq_a_d [OF 7])
      have e': "win_prob a (d + 1) = 2275 / 7776 * win_prob (a - 2) (d + 1)
          + 2611 / 7776 * win_prob (a - 1) d + 2890 / 7776 * win_prob a (d - 1)"
        using eq_a_d [of a "d + 1"] 7 by simp
      have i1: "win_prob (a - 2) (d + 1) \<le> win_prob (a - 2) d"
        using ih [of "a - 2" d] 7 by simp
      have i2: "win_prob (a - 1) d \<le> win_prob (a - 1) (d - 1)"
        using ih [of "a - 1" "d - 1"] 7 by simp
      have i3: "win_prob a (d - 1) \<le> win_prob a (d - 2)"
        using ih [of a "d - 2"] 7 by simp
      from e e' i1 i2 i3 show ?thesis
        by linarith
    qed
  qed
  from M1 M2 show ?case ..
qed


lemma win_prob_mono_a:
  assumes "0 \<le> a" and "0 \<le> d" and "a \<le> a'"
  shows "win_prob a d \<le> win_prob a' d"
  using assms(3)
proof (induction a' rule: int_ge_induct)
  case base
  show ?case by simp
next
  case (step k)
  from step.hyps assms(1) have "0 \<le> k" by simp
  from win_prob_mono_aux [OF this assms(2) refl] step.IH show ?case
    by simp
qed

lemma win_prob_mono_d:
  assumes "0 \<le> a" and "0 \<le> d" and "d \<le> d'"
  shows "win_prob a d' \<le> win_prob a d"
  using assms(3)
proof (induction d' rule: int_ge_induct)
  case base
  show ?case by simp
next
  case (step k)
  from step.hyps assms(2) have "0 \<le> k" by simp
  from win_prob_mono_aux [OF assms(1) this refl] step.IH show ?case
    by simp
qed

text \<open>
  Claim C7.  In the grid that \<open>main\<close> prints, the win probability does not decrease
  along a column when \<open>a\<close> grows from 0 to \<open>A\<close>, and does not increase along a row when
  \<open>d\<close> grows from 0 to \<open>D\<close>.  The values are the exact solutions of the recurrence
  (\<open>double\<close> is idealised as \<open>real\<close>).
\<close>

theorem grid_monotone:
  assumes "main argc arg1 arg2 arg3 gens = Some (Exit 0 (Grid rows))"
    and "A = wrap32 arg1" and "D = wrap32 arg2"
    and "0 \<le> a" and "a \<le> a'" and "a' \<le> A"
    and "0 \<le> d" and "d \<le> d'" and "d' \<le> D"
  shows "rows ! nat a ! nat d \<le> rows ! nat a' ! nat d
    \<and> rows ! nat a ! nat d' \<le> rows ! nat a ! nat d"
proof -
  from main_emits_grid [OF assms(1)] assms(2,3)
  have rows: "rows = map (\<lambda>a. map (\<lambda>d. win_prob a d) [0..D]) [0..A]"
    by simp
  have cell: "rows ! nat x ! nat y = win_prob x y" if "0 \<le> x" "x \<le> A" "0 \<le> y" "y \<le> D" for x y
    unfolding rows by (rule table_cell [OF that])
  have c1: "rows ! nat a ! nat d = win_prob a d"
    using assms(4-9) by (intro cell) simp_all
  have c2: "rows ! nat a' ! nat d = win_prob a' d"
    using assms(4-9) by (intro cell) simp_all
  have c3: "rows ! nat a ! nat d' = win_prob a d'"
    using assms(4-9) by (intro cell) simp_all
  from win_prob_mono_a [OF assms(4,7,5)] win_prob_mono_d [OF assms(4,7,8)] show ?thesis
    by (simp only: c1 c2 c3)
qed

theorem grid_monotone_witness:
  "main 3 2 1 0 (\<lambda>i n. 1) = Some (Exit 0 (Grid [[0, 0], [0, 0], [1, 5 / 12]]))
   \<and> [[0, 0], [0, 0], [1, 5 / 12 :: real]] ! nat 1 ! nat 0
        \<le> [[0, 0], [0, 0], [1, 5 / 12]] ! nat 2 ! nat 0
   \<and> [[0, 0], [0, 0], [1, 5 / 12 :: real]] ! nat 2 ! nat 1
        \<le> [[0, 0], [0, 0], [1, 5 / 12]] ! nat 2 ! nat 0"
proof -
  have m: "main 3 2 1 0 (\<lambda>i n. 1) = Some (Exit 0 (Grid [[0, 0], [0, 0], [1, 5 / 12]]))"
    by (rule main_2_1) simp
  have h: "(2::int) = wrap32 2" "(1::int) = wrap32 1" "(0::int) \<le> 1" "(1::int) \<le> 2"
    "(2::int) \<le> 2" "(0::int) \<le> 0" "(0::int) \<le> 1" "(1::int) \<le> 1"
    by (simp_all add: wrap32_small)
  have h2: "(0::int) \<le> 2" by simp
  from grid_monotone [OF m h(1,2) h(3) h(4) h(5) h(6) h(7) h(8)]
    grid_monotone [OF m h(1,2) h2 h(5) h(5) h(6) h(7) h(8)] m
  show ?thesis by blast
qed

end
